theory Spec2Isabelle
  imports Complex_Main
begin

section \<open>Data model\<close>

text \<open>
  A \<open>GridPoint\<close> is the object \<open>{x, y}\<close> of the source, written as the pair \<open>(x, y)\<close>;
  a \<open>Vector2\<close> is a world position or direction. JavaScript numbers that hold tile
  coordinates and counters are integers; speeds, timers and world positions are read as
  real numbers.
\<close>

type_synonym GridPoint = "int \<times> int"
type_synonym Vector2 = "real \<times> real"

record Car =
  car_id :: nat
  sprite :: nat
  path :: "Vector2 list"
  gridPath :: "GridPoint list"
  destination :: GridPoint
  targetIndex :: nat
  position :: Vector2
  heading :: Vector2
  currentSpeed :: real
  targetSpeed :: real
  maxSpeed :: real
  width :: real
  car_length :: real
  color :: nat

text \<open>
  A JavaScript \<open>Map\<close> iterates in insertion order, so it is an association list with the
  oldest entry first. \<open>Map.set\<close> on a present key keeps the key's place; on an absent key
  it appends.
\<close>

type_synonym ('k, 'v) js_map = "('k \<times> 'v) list"

definition map_has :: "'k \<Rightarrow> ('k, 'v) js_map \<Rightarrow> bool" where
  "map_has k m = (k \<in> fst ` set m)"

definition map_get :: "'k \<Rightarrow> ('k, 'v) js_map \<Rightarrow> 'v option" where
  "map_get k m = map_of m k"

definition map_delete :: "'k \<Rightarrow> ('k, 'v) js_map \<Rightarrow> ('k, 'v) js_map" where
  "map_delete k m = filter (\<lambda>e. fst e \<noteq> k) m"

definition map_set :: "'k \<Rightarrow> 'v \<Rightarrow> ('k, 'v) js_map \<Rightarrow> ('k, 'v) js_map" where
  "map_set k v m =
     (if map_has k m then map (\<lambda>e. if fst e = k then (k, v) else e) m else m @ [(k, v)])"

subsection \<open>PathCache\<close>

record PathCache =
  store :: "(string, GridPoint list) js_map"
  limit :: nat

definition copy_cell :: "GridPoint \<Rightarrow> GridPoint" where
  "copy_cell cell = (fst cell, snd cell)"

definition new_PathCache :: "nat \<Rightarrow> PathCache" where
  "new_PathCache capacity = \<lparr>store = [], limit = capacity\<rparr>"

definition cache_get :: "string \<Rightarrow> PathCache \<Rightarrow> GridPoint list option" where
  "cache_get key c =
     (case map_get key (store c) of
        Some cached \<Rightarrow> Some (map copy_cell cached)
      | None \<Rightarrow> None)"

definition cache_set :: "string \<Rightarrow> GridPoint list \<Rightarrow> PathCache \<Rightarrow> PathCache" where
  "cache_set key p c =
     (let snapshot = map copy_cell p;
          st1 = (if map_has key (store c) then map_delete key (store c) else store c);
          st2 = map_set key snapshot st1
      in if length st2 > limit c
         then (case st2 of
                 [] \<Rightarrow> c\<lparr>store := st2\<rparr>
               | oldest # _ \<Rightarrow> c\<lparr>store := map_delete (fst oldest) st2\<rparr>)
         else c\<lparr>store := st2\<rparr>)"

definition cache_clear :: "PathCache \<Rightarrow> PathCache" where
  "cache_clear c = c\<lparr>store := []\<rparr>"

text \<open>
  The calls a client can make on a cache. \<open>get\<close> only reads the store; what it returns is
  \<open>cache_get\<close>.
\<close>

datatype cache_call = Get string | Put string "GridPoint list" | Clear

fun cache_apply :: "cache_call \<Rightarrow> PathCache \<Rightarrow> PathCache" where
  "cache_apply (Get key) c = c"
| "cache_apply (Put key p) c = cache_set key p c"
| "cache_apply Clear c = cache_clear c"

fun is_get :: "cache_call \<Rightarrow> bool" where
  "is_get (Get key) = True"
| "is_get (Put key p) = False"
| "is_get Clear = False"

definition cache_keys :: "PathCache \<Rightarrow> string list" where
  "cache_keys c = map fst (store c)"

definition cache_wf :: "PathCache \<Rightarrow> bool" where
  "cache_wf c = (distinct (cache_keys c) \<and> length (store c) \<le> limit c)"

definition cache_puts :: "(string \<times> GridPoint list) list \<Rightarrow> PathCache \<Rightarrow> PathCache" where
  "cache_puts entries c = fold (\<lambda>e. cache_set (fst e) (snd e)) entries c"

subsection \<open>PathCache on an explicit store\<close>

text \<open>
  Whether two arrays are the same object is not visible in the lists above. Here arrays
  and cell objects live at addresses: \<open>arrayAt\<close> gives the elements of the array at an
  address (references to cell objects), \<open>cellAt\<close> the fields of the cell object at an
  address, and the addresses below \<open>nextAddr\<close> are the allocated ones. The cache holds
  references to arrays. \<open>path.map((cell) => ({ ...cell }))\<close> allocates the new array and
  then one new object per element.
\<close>

record heap =
  cellAt :: "nat \<Rightarrow> GridPoint"
  arrayAt :: "nat \<Rightarrow> nat list"
  nextAddr :: nat

definition newArray :: "heap \<Rightarrow> nat \<times> heap" where
  "newArray h =
     (nextAddr h, h\<lparr>arrayAt := (arrayAt h)(nextAddr h := []), nextAddr := Suc (nextAddr h)\<rparr>)"

definition newCell :: "GridPoint \<Rightarrow> heap \<Rightarrow> nat \<times> heap" where
  "newCell v h =
     (nextAddr h, h\<lparr>cellAt := (cellAt h)(nextAddr h := v), nextAddr := Suc (nextAddr h)\<rparr>)"

fun copyCells :: "nat list \<Rightarrow> heap \<Rightarrow> nat list \<times> heap" where
  "copyCells [] h = ([], h)"
| "copyCells (a # rest) h =
     (let (r, h1) = newCell (copy_cell (cellAt h a)) h;
          (rs, h2) = copyCells rest h1
      in (r # rs, h2))"

definition copyPath :: "nat \<Rightarrow> heap \<Rightarrow> nat \<times> heap" where
  "copyPath a h =
     (let (r, h1) = newArray h;
          (rs, h2) = copyCells (arrayAt h a) h1
      in (r, h2\<lparr>arrayAt := (arrayAt h2)(r := rs)\<rparr>))"

definition contents :: "heap \<Rightarrow> nat \<Rightarrow> GridPoint list" where
  "contents h a = map (cellAt h) (arrayAt h a)"

record HeapCache =
  hstore :: "(string, nat) js_map"
  hlimit :: nat

definition hcache_get :: "string \<Rightarrow> heap \<Rightarrow> HeapCache \<Rightarrow> nat option \<times> heap" where
  "hcache_get key h c =
     (case map_get key (hstore c) of
        Some cached \<Rightarrow> (let (r, h1) = copyPath cached h in (Some r, h1))
      | None \<Rightarrow> (None, h))"

definition hcache_set :: "string \<Rightarrow> nat \<Rightarrow> heap \<Rightarrow> HeapCache \<Rightarrow> heap \<times> HeapCache" where
  "hcache_set key p h c =
     (let (snapshot, h1) = copyPath p h;
          st1 = (if map_has key (hstore c) then map_delete key (hstore c) else hstore c);
          st2 = map_set key snapshot st1
      in if length st2 > hlimit c
         then (case st2 of
                 [] \<Rightarrow> (h1, c\<lparr>hstore := st2\<rparr>)
               | oldest # _ \<Rightarrow> (h1, c\<lparr>hstore := map_delete (fst oldest) st2\<rparr>))
         else (h1, c\<lparr>hstore := st2\<rparr>))"

text \<open>
  What a client can do to the objects it holds: overwrite the fields of a cell object or
  the elements of an array. \<open>agree_on A h h'\<close>: the heap \<open>h'\<close> is \<open>h\<close> after writes
  outside the addresses \<open>A\<close> and allocations.
\<close>

datatype mutation = SetCell nat GridPoint | SetArray nat "nat list"

fun target :: "mutation \<Rightarrow> nat" where
  "target (SetCell a v) = a"
| "target (SetArray a refs) = a"

fun mutate :: "mutation \<Rightarrow> heap \<Rightarrow> heap" where
  "mutate (SetCell a v) h = h\<lparr>cellAt := (cellAt h)(a := v)\<rparr>"
| "mutate (SetArray a refs) h = h\<lparr>arrayAt := (arrayAt h)(a := refs)\<rparr>"

definition agree_on :: "nat set \<Rightarrow> heap \<Rightarrow> heap \<Rightarrow> bool" where
  "agree_on A h h' =
     (nextAddr h \<le> nextAddr h' \<and> (\<forall>a\<in>A. cellAt h' a = cellAt h a \<and> arrayAt h' a = arrayAt h a))"

definition allocated :: "heap \<Rightarrow> nat \<Rightarrow> bool" where
  "allocated h a = (a < nextAddr h \<and> (\<forall>r\<in>set (arrayAt h a). r < nextAddr h))"

text \<open>
  The store part of a put, shared by both models of the cache, and the cache of lists
  that a cache of references stands for.
\<close>

definition put_entry :: "'k \<Rightarrow> 'v \<Rightarrow> nat \<Rightarrow> ('k, 'v) js_map \<Rightarrow> ('k, 'v) js_map" where
  "put_entry k v cap st =
     (let st1 = (if map_has k st then map_delete k st else st);
          st2 = map_set k v st1
      in if length st2 > cap
         then (case st2 of [] \<Rightarrow> st2 | oldest # _ \<Rightarrow> map_delete (fst oldest) st2)
         else st2)"

definition abs_cache :: "heap \<Rightarrow> HeapCache \<Rightarrow> PathCache" where
  "abs_cache h c =
     \<lparr>store = map (\<lambda>e. (fst e, contents h (snd e))) (hstore c), limit = hlimit c\<rparr>"

text \<open>
  A small run: the client holds the path array at address 0 with its cells at 1 and 2,
  puts it, empties its array and overwrites a cell, gets the key, overwrites what it
  got, and gets the key again.
\<close>

definition heap0 :: heap where
  "heap0 =
     \<lparr>cellAt = (\<lambda>a. if a = 1 then (3, 16) else if a = 2 then (4, 16) else (0, 0)),
      arrayAt = (\<lambda>a. if a = 0 then [1, 2] else []),
      nextAddr = 3\<rparr>"

definition hcache0 :: HeapCache where
  "hcache0 = \<lparr>hstore = [], hlimit = 2\<rparr>"

definition heap1 :: heap where
  "heap1 = fst (hcache_set ''3,16:4,16'' 0 heap0 hcache0)"

definition hcache1 :: HeapCache where
  "hcache1 = snd (hcache_set ''3,16:4,16'' 0 heap0 hcache0)"

definition heap2 :: heap where
  "heap2 = mutate (SetCell 1 (9, 9)) (mutate (SetArray 0 []) heap1)"

definition heap3 :: heap where
  "heap3 = snd (hcache_get ''3,16:4,16'' heap2 hcache1)"

definition heap4 :: heap where
  "heap4 = mutate (SetArray 6 [7]) (mutate (SetCell 7 (0, 0)) heap3)"

subsection \<open>Scene state\<close>

text \<open>
  The fields of \<open>GameScene\<close> that the modelled operations read or write. The spatial index
  holds its cars by id; \<open>sprites\<close> is the list of live rendering containers and
  \<open>nextSprite\<close> the next fresh handle of the rendering collaborator.
\<close>

record GameScene =
  grid :: "nat list list"
  walkMatrix :: "nat list list"
  roadCount :: int
  statusTimer :: real
  flashMessage :: string
  flashTimer :: real
  cars :: "Car list"
  carId :: nat
  carPathsDirty :: bool
  carPathRefreshDelay :: real
  pathCache :: PathCache
  spawnPoints :: "(string, GridPoint) js_map"
  destinationPoints :: "(string, GridPoint) js_map"
  spawnOrder :: "GridPoint list"
  spawnCursor :: nat
  needsRedraw :: bool
  carSpatialIndex :: "(string, nat list) js_map"
  sprites :: "nat list"
  nextSprite :: nat

definition tileSize :: int where
  "tileSize = 32"

definition gridWidth :: int where
  "gridWidth = 48"

definition gridHeight :: int where
  "gridHeight = 32"

definition spatialCellSize :: int where
  "spatialCellSize = tileSize * 2"

subsection \<open>Decimal rendering of integers and the string keys\<close>

definition digit_char :: "nat \<Rightarrow> char" where
  "digit_char d = char_of (48 + d)"

fun show_nat :: "nat \<Rightarrow> string" where
  "show_nat n = (if n < 10 then [digit_char n] else show_nat (n div 10) @ [digit_char (n mod 10)])"

definition show_int :: "int \<Rightarrow> string" where
  "show_int i = (if i < 0 then CHR ''-'' # show_nat (nat (- i)) else show_nat (nat i))"

definition cellKey :: "int \<Rightarrow> int \<Rightarrow> string" where
  "cellKey cx cy = show_int cx @ '','' @ show_int cy"

definition pathKey :: "GridPoint \<Rightarrow> GridPoint \<Rightarrow> string" where
  "pathKey start goal =
     show_int (fst start) @ '','' @ show_int (snd start) @ '':'' @
     show_int (fst goal) @ '','' @ show_int (snd goal)"

subsection \<open>HUD and flash message\<close>

text \<open>
  \<open>refreshHud\<close> rewrites the HUD text from the state and, when forced, restarts the status
  timer; the text itself is derived data of the rendering side. The scene is modelled
  after \<open>create()\<close>, where the HUD text object exists.
\<close>

definition refreshHud :: "bool \<Rightarrow> GameScene \<Rightarrow> GameScene" where
  "refreshHud force s = (if force then s\<lparr>statusTimer := 0\<rparr> else s)"

definition showFlash :: "string \<Rightarrow> real \<Rightarrow> GameScene \<Rightarrow> GameScene" where
  "showFlash message duration s =
     refreshHud True (s\<lparr>flashMessage := message, flashTimer := duration\<rparr>)"

subsection \<open>Grid access\<close>

text \<open>
  \<open>cell_at g cx cy\<close> is the read \<open>g[cy][cx]\<close>; \<open>None\<close> is JavaScript's \<open>undefined\<close> for a
  column outside the row. Every read of the source is guarded by \<open>isInside\<close>, and the
  matrices keep \<open>gridHeight\<close> rows of \<open>gridWidth\<close> columns (\<open>grid_dims\<close> below), so the
  row of a guarded read always exists.
\<close>

definition cell_at :: "nat list list \<Rightarrow> int \<Rightarrow> int \<Rightarrow> nat option" where
  "cell_at g cx cy =
     (if 0 \<le> cy \<and> nat cy < length g \<and> 0 \<le> cx \<and> nat cx < length (g ! nat cy)
      then Some (g ! nat cy ! nat cx) else None)"

definition cell_put :: "nat list list \<Rightarrow> int \<Rightarrow> int \<Rightarrow> nat \<Rightarrow> nat list list" where
  "cell_put g cx cy v = g[nat cy := (g ! nat cy)[nat cx := v]]"

definition isInside :: "int \<Rightarrow> int \<Rightarrow> bool" where
  "isInside cx cy = (cx \<ge> 0 \<and> cy \<ge> 0 \<and> cx < gridWidth \<and> cy < gridHeight)"

definition isRoad :: "GameScene \<Rightarrow> int \<Rightarrow> int \<Rightarrow> bool" where
  "isRoad s cx cy = (isInside cx cy \<and> cell_at (grid s) cx cy = Some 1)"

definition cellToWorldVector :: "GridPoint \<Rightarrow> Vector2" where
  "cellToWorldVector cell =
     (real_of_int (fst cell * tileSize) + real_of_int tileSize / 2,
      real_of_int (snd cell * tileSize) + real_of_int tileSize / 2)"

subsection \<open>Path invalidation and spawn order\<close>

definition scheduleCarPathRefresh :: "real \<Rightarrow> GameScene \<Rightarrow> GameScene" where
  "scheduleCarPathRefresh delay s = s\<lparr>carPathsDirty := True, carPathRefreshDelay := delay\<rparr>"

definition invalidatePaths :: "real \<Rightarrow> GameScene \<Rightarrow> GameScene" where
  "invalidatePaths delay s =
     (scheduleCarPathRefresh delay (s\<lparr>pathCache := cache_clear (pathCache s)\<rparr>))
       \<lparr>needsRedraw := True\<rparr>"

definition rebuildSpawnOrder :: "GameScene \<Rightarrow> GameScene" where
  "rebuildSpawnOrder s =
     (let order = map (\<lambda>e. copy_cell (snd e)) (spawnPoints s)
      in s\<lparr>spawnOrder := order,
           spawnCursor := (if length order = 0 then 0 else spawnCursor s mod length order)\<rparr>)"

subsection \<open>Spawn and destination points\<close>

definition toggleSpawn :: "GridPoint \<Rightarrow> GameScene \<Rightarrow> GameScene" where
  "toggleSpawn cell s =
     (if \<not> isRoad s (fst cell) (snd cell)
      then showFlash ''Place a spawn on a road tile'' 1.2 s
      else
        let key = cellKey (fst cell) (snd cell);
            s1 = (if map_has key (spawnPoints s)
                  then showFlash ''Spawn removed'' 1.2
                         (s\<lparr>spawnPoints := map_delete key (spawnPoints s)\<rparr>)
                  else showFlash ''Spawn added'' 1.2
                         (s\<lparr>spawnPoints := map_set key (fst cell, snd cell) (spawnPoints s)\<rparr>))
        in invalidatePaths 0.1 (rebuildSpawnOrder s1))"

definition removeSpawn :: "GridPoint \<Rightarrow> GameScene \<Rightarrow> GameScene" where
  "removeSpawn cell s =
     (let key = cellKey (fst cell) (snd cell)
      in if map_has key (spawnPoints s)
         then showFlash ''Spawn removed'' 1.0
                (invalidatePaths 0.1
                  (rebuildSpawnOrder (s\<lparr>spawnPoints := map_delete key (spawnPoints s)\<rparr>)))
         else s)"

definition toggleDestination :: "GridPoint \<Rightarrow> GameScene \<Rightarrow> GameScene" where
  "toggleDestination cell s =
     (if \<not> isRoad s (fst cell) (snd cell)
      then showFlash ''Place a destination on a road tile'' 1.2 s
      else
        let key = cellKey (fst cell) (snd cell);
            s1 = (if map_has key (destinationPoints s)
                  then showFlash ''Destination removed'' 1.2
                         (s\<lparr>destinationPoints := map_delete key (destinationPoints s)\<rparr>)
                  else showFlash ''Destination added'' 1.2
                         (s\<lparr>destinationPoints :=
                              map_set key (fst cell, snd cell) (destinationPoints s)\<rparr>))
        in invalidatePaths 0.1 s1)"

definition removeDestination :: "GridPoint \<Rightarrow> GameScene \<Rightarrow> GameScene" where
  "removeDestination cell s =
     (let key = cellKey (fst cell) (snd cell)
      in if map_has key (destinationPoints s)
         then showFlash ''Destination removed'' 1.0
                (invalidatePaths 0.1
                  (s\<lparr>destinationPoints := map_delete key (destinationPoints s)\<rparr>))
         else s)"

subsection \<open>Road edits\<close>

definition setRoadValue :: "int \<Rightarrow> int \<Rightarrow> nat \<Rightarrow> GameScene \<Rightarrow> bool \<times> GameScene" where
  "setRoadValue cx cy v s =
     (if \<not> isInside cx cy then (False, s)
      else if cell_at (grid s) cx cy = Some v then (False, s)
      else
        let s1 = s\<lparr>grid := cell_put (grid s) cx cy v,
                   walkMatrix := cell_put (walkMatrix s) cx cy (if v = 1 then 0 else 1)\<rparr>;
            s2 = invalidatePaths 0.25 s1
        in if v = 1 then (True, s2\<lparr>roadCount := roadCount s2 + 1\<rparr>)
           else
             let s3 = s2\<lparr>roadCount := max 0 (roadCount s2 - 1)\<rparr>;
                 key = cellKey cx cy;
                 removedSpawn = map_has key (spawnPoints s3);
                 s4 = s3\<lparr>spawnPoints := map_delete key (spawnPoints s3),
                          destinationPoints := map_delete key (destinationPoints s3)\<rparr>
             in (True, if removedSpawn then rebuildSpawnOrder s4 else s4))"

definition initializeGrid :: "GameScene \<Rightarrow> GameScene" where
  "initializeGrid s =
     s\<lparr>grid := replicate (nat gridHeight) (replicate (nat gridWidth) 0),
       walkMatrix := replicate (nat gridHeight) (replicate (nat gridWidth) 1),
       roadCount := 0\<rparr>"

definition seedSimpleRoads :: "GameScene \<Rightarrow> GameScene" where
  "seedSimpleRoads s =
     (let midY = \<lfloor>real_of_int gridHeight / 2\<rfloor>;
          midX = \<lfloor>real_of_int gridWidth / 2\<rfloor>;
          s1 = fold (\<lambda>cx t. snd (setRoadValue cx midY 1 t)) [3..gridWidth - 3 - 1] s;
          s2 = fold (\<lambda>cy t. snd (setRoadValue midX cy 1 t)) [3..gridHeight - 3 - 1] s1;
          quarterX = \<lfloor>real_of_int gridWidth * 0.25\<rfloor>;
          threeQuarterX = \<lfloor>real_of_int gridWidth * 0.75\<rfloor>;
          s3 = fold (\<lambda>cy t. snd (setRoadValue threeQuarterX cy 1
                                   (snd (setRoadValue quarterX cy 1 t))))
                 [midY - 6..midY + 6] s2;
          keyPoints = [(midX, 4), (midX, gridHeight - 5), (4, midY), (gridWidth - 5, midY)];
          s4 = fold (\<lambda>point t. snd (setRoadValue (fst point) (snd point) 1 t)) keyPoints s3;
          s5 = s4\<lparr>spawnPoints := map_set (cellKey midX 4) (midX, 4) (spawnPoints s4)\<rparr>;
          s6 = s5\<lparr>spawnPoints := map_set (cellKey 4 midY) (4, midY) (spawnPoints s5)\<rparr>;
          s7 = s6\<lparr>destinationPoints :=
                     map_set (cellKey midX (gridHeight - 5)) (midX, gridHeight - 5)
                       (destinationPoints s6)\<rparr>;
          s8 = s7\<lparr>destinationPoints :=
                     map_set (cellKey (gridWidth - 5) midY) (gridWidth - 5, midY)
                       (destinationPoints s7)\<rparr>
      in rebuildSpawnOrder s8)"

subsection \<open>Cars\<close>

definition lengthSq :: "Vector2 \<Rightarrow> real" where
  "lengthSq v = fst v * fst v + snd v * snd v"

definition normalize :: "Vector2 \<Rightarrow> Vector2" where
  "normalize v =
     (let len = lengthSq v
      in if len > 0 then (fst v * (1 / sqrt len), snd v * (1 / sqrt len)) else v)"

text \<open>
  \<open>createCar\<close> draws the colour and the maximal speed from the random generator; the
  two draws are arguments here. Only the container of the car's rectangles is kept as
  its rendering handle.
\<close>

definition createCar :: "GridPoint list \<Rightarrow> nat \<Rightarrow> real \<Rightarrow> GameScene \<Rightarrow> GameScene" where
  "createCar cells col speed s =
     (if length cells < 2 then s
      else
        let gp = map copy_cell cells;
            worldPath = map cellToWorldVector gp;
            start = worldPath ! 0;
            next = worldPath ! 1;
            delta = (fst next - fst start, snd next - snd start);
            initialHeading = (if lengthSq delta = 0 then (1, 0) else normalize delta);
            carWidth = real_of_int tileSize * 0.7;
            carHeight = real_of_int tileSize * 0.4;
            container = nextSprite s;
            s1 = s\<lparr>sprites := sprites s @ [container], nextSprite := nextSprite s + 1\<rparr>;
            s2 = s1\<lparr>carId := carId s1 + 1\<rparr>;
            car = \<lparr>car_id = carId s2, sprite = container, path = worldPath, gridPath = gp,
                   destination = gp ! (length gp - 1), targetIndex = 1, position = start,
                   heading = initialHeading, currentSpeed = 0, targetSpeed = 0,
                   maxSpeed = speed, width = carHeight, car_length = carWidth, color = col\<rparr>
        in refreshHud True (s2\<lparr>cars := cars s2 @ [car]\<rparr>))"

definition carBucketKey :: "Car \<Rightarrow> string" where
  "carBucketKey car =
     cellKey \<lfloor>fst (position car) / real_of_int spatialCellSize\<rfloor>
             \<lfloor>snd (position car) / real_of_int spatialCellSize\<rfloor>"

definition removeCarFromBucket ::
  "nat \<Rightarrow> string \<Rightarrow> (string, nat list) js_map \<Rightarrow> bool \<times> (string, nat list) js_map" where
  "removeCarFromBucket cid key idx =
     (case map_get key idx of
        None \<Rightarrow> (False, idx)
      | Some bucket \<Rightarrow>
          if cid \<notin> set bucket then (False, idx)
          else
            let bucket' = remove1 cid bucket
            in (True, if length bucket' = 0 then map_delete key idx
                      else map_set key bucket' idx))"

fun removeCarFromFirstBucket ::
  "nat \<Rightarrow> string list \<Rightarrow> (string, nat list) js_map \<Rightarrow> (string, nat list) js_map" where
  "removeCarFromFirstBucket cid [] idx = idx"
| "removeCarFromFirstBucket cid (bucketKey # rest) idx =
     (case removeCarFromBucket cid bucketKey idx of
        (True, idx') \<Rightarrow> idx'
      | (False, _) \<Rightarrow> removeCarFromFirstBucket cid rest idx)"

definition removeCarFromSpatialIndex ::
  "Car \<Rightarrow> string option \<Rightarrow> (string, nat list) js_map \<Rightarrow> (string, nat list) js_map" where
  "removeCarFromSpatialIndex car keyHint idx =
     (if length idx = 0 then idx
      else
        let hinted = (case keyHint of
                        None \<Rightarrow> (False, idx)
                      | Some k \<Rightarrow> if k = [] then (False, idx)
                                  else removeCarFromBucket (car_id car) k idx)
        in if fst hinted then snd hinted
           else
             let computed = removeCarFromBucket (car_id car) (carBucketKey car) idx
             in if fst computed then snd computed
                else removeCarFromFirstBucket (car_id car) (map fst idx) idx)"

text \<open>
  \<open>removeCarAt\<close> splices the car out of the list. At an index outside the list the splice
  removes nothing and the following read of the missing car raises a \<open>TypeError\<close> before
  anything is written: the result is \<open>None\<close>.
\<close>

definition removeCarAt :: "nat \<Rightarrow> string option \<Rightarrow> GameScene \<Rightarrow> GameScene option" where
  "removeCarAt index spatialKeyHint s =
     (if index < length (cars s)
      then
        let car = cars s ! index;
            s1 = s\<lparr>cars := take index (cars s) @ drop (Suc index) (cars s)\<rparr>;
            s2 = s1\<lparr>carSpatialIndex :=
                       removeCarFromSpatialIndex car spatialKeyHint (carSpatialIndex s1)\<rparr>;
            s3 = s2\<lparr>sprites := removeAll (sprite car) (sprites s2)\<rparr>
        in Some (refreshHud True s3)
      else None)"

definition clearCars :: "GameScene \<Rightarrow> GameScene" where
  "clearCars s =
     (let s1 = s\<lparr>sprites := filter (\<lambda>h. h \<notin> sprite ` set (cars s)) (sprites s)\<rparr>
      in refreshHud True (s1\<lparr>cars := [], carSpatialIndex := [], carId := 0\<rparr>))"

definition clearCells :: "GameScene \<Rightarrow> GameScene" where
  "clearCells s =
     fold (\<lambda>cy t.
            fold (\<lambda>cx u. u\<lparr>grid := cell_put (grid u) cx cy 0,
                            walkMatrix := cell_put (walkMatrix u) cx cy 1\<rparr>)
              [0..gridWidth - 1] t)
       [0..gridHeight - 1] s"

definition forceRedraw :: "GameScene \<Rightarrow> GameScene" where
  "forceRedraw s = refreshHud True (s\<lparr>needsRedraw := False\<rparr>)"

definition resetMap :: "GameScene \<Rightarrow> GameScene" where
  "resetMap s =
     (let s1 = clearCells s;
          s2 = rebuildSpawnOrder (s1\<lparr>spawnPoints := []\<rparr>);
          s3 = s2\<lparr>destinationPoints := [], pathCache := cache_clear (pathCache s2),
                   roadCount := 0\<rparr>;
          s4 = seedSimpleRoads (clearCars s3)
      in showFlash ''Map reset'' 2 (forceRedraw s4))"

subsection \<open>Car following\<close>

definition computeDesiredSpeed :: "Car \<Rightarrow> Car list \<Rightarrow> real" where
  "computeDesiredSpeed car nearby =
     (let headingX = fst (heading car);
          headingY = snd (heading car)
      in fold (\<lambda>other desired.
                 if other = car then desired
                 else
                   let relX = fst (position other) - fst (position car);
                       relY = snd (position other) - snd (position car);
                       forwardness = relX * headingX + relY * headingY
                   in if forwardness \<le> 0 then desired
                      else
                        let lateral = \<bar>relX * headingY - relY * headingX\<bar>
                        in if lateral > width car * 0.9 then desired
                           else
                             let safeDistance =
                                   max (car_length car * 1.5) (currentSpeed car * 0.6 + 20)
                             in if forwardness < safeDistance
                                then min desired (max 20 (currentSpeed other - 10))
                                else desired)
           nearby (maxSpeed car))"

subsection \<open>Nearest road cell\<close>

definition clamp :: "int \<Rightarrow> int \<Rightarrow> int \<Rightarrow> int" where
  "clamp v lo hi = max lo (min hi v)"

definition baseCell :: "Vector2 \<Rightarrow> GridPoint" where
  "baseCell worldPosition =
     (let baseX = \<lfloor>fst worldPosition / real_of_int tileSize\<rfloor>;
          baseY = \<lfloor>snd worldPosition / real_of_int tileSize\<rfloor>
      in if \<not> isInside baseX baseY
         then (clamp baseX 0 (gridWidth - 1), clamp baseY 0 (gridHeight - 1))
         else (baseX, baseY))"

definition tileDistance :: "Vector2 \<Rightarrow> GridPoint \<Rightarrow> real" where
  "tileDistance worldPosition cell =
     (let centerX = real_of_int (fst cell * tileSize) + real_of_int tileSize / 2;
          centerY = real_of_int (snd cell * tileSize) + real_of_int tileSize / 2;
          diffX = fst worldPosition - centerX;
          diffY = snd worldPosition - centerY
      in diffX * diffX + diffY * diffY)"

text \<open>
  One ring of the search. \<open>candidate\<close> and \<open>bestDistance\<close> are written together, so the
  pair is one optional value: none stands for \<open>null\<close> with the distance at infinity.
\<close>

definition ringOffsets :: "int \<Rightarrow> (int \<times> int) list" where
  "ringOffsets radius =
     concat (map (\<lambda>dy. map (\<lambda>dx. (dx, dy)) [- radius..radius]) [- radius..radius])"

definition ringVisit ::
  "GameScene \<Rightarrow> Vector2 \<Rightarrow> GridPoint \<Rightarrow> int \<Rightarrow> int \<times> int \<Rightarrow>
     (GridPoint \<times> real) option \<Rightarrow> (GridPoint \<times> real) option" where
  "ringVisit s worldPosition base radius d best =
     (if max \<bar>fst d\<bar> \<bar>snd d\<bar> \<noteq> radius then best
      else
        let cx = fst base + fst d;
            cy = snd base + snd d
        in if \<not> isInside cx cy then best
           else if \<not> isRoad s cx cy then best
           else
             let distance = tileDistance worldPosition (cx, cy)
             in case best of
                  None \<Rightarrow> Some ((cx, cy), distance)
                | Some b \<Rightarrow> if distance < snd b then Some ((cx, cy), distance) else best)"

definition scanRing ::
  "GameScene \<Rightarrow> Vector2 \<Rightarrow> GridPoint \<Rightarrow> int \<Rightarrow> (GridPoint \<times> real) option" where
  "scanRing s worldPosition base radius =
     fold (ringVisit s worldPosition base radius) (ringOffsets radius) None"

fun searchRings :: "GameScene \<Rightarrow> Vector2 \<Rightarrow> GridPoint \<Rightarrow> int list \<Rightarrow> GridPoint option" where
  "searchRings s worldPosition base [] = None"
| "searchRings s worldPosition base (radius # rest) =
     (case scanRing s worldPosition base radius of
        Some b \<Rightarrow> Some (fst b)
      | None \<Rightarrow> searchRings s worldPosition base rest)"

definition findNearestRoadCell :: "Vector2 \<Rightarrow> int \<Rightarrow> GameScene \<Rightarrow> GridPoint option" where
  "findNearestRoadCell worldPosition maxRadius s =
     (let base = baseCell worldPosition
      in if isRoad s (fst base) (snd base) then Some (fst base, snd base)
         else
           let maxSearch = max 1 maxRadius
           in searchRings s worldPosition base [1..maxSearch])"

definition defaultMaxRadius :: int where
  "defaultMaxRadius = max gridWidth gridHeight"

definition ensureRoadCell :: "GridPoint \<Rightarrow> GameScene \<Rightarrow> GridPoint option" where
  "ensureRoadCell cell s =
     (if isRoad s (fst cell) (snd cell) then Some (fst cell, snd cell)
      else findNearestRoadCell (cellToWorldVector cell) defaultMaxRadius s)"

subsection \<open>The grid search\<close>

text \<open>
  Modelled from the spec: the search of the PathFinding.js library (\<open>PF.Grid\<close>,
  \<open>PF.AStarFinder\<close> with \<open>allowDiagonal: false\<close>), of which the repository holds only the
  type declarations. The specification describes it as a grid search with 4-directional
  unit steps over the walkability matrix (0 free, 1 blocked) that produces the shortest
  cell sequence from start to end inclusive, or an empty result if the end is
  unreachable. It is modelled as a breadth-first search by layers: \<open>frontier\<close> holds, for
  every cell of the current layer, the cells from it back to the start, and \<open>seen\<close> the
  cells reached so far. A cell is walkable when it lies inside the matrix and its entry
  is 0. The search leaves from the start cell whatever its entry is, and steps onto
  walkable cells only: nothing in the specification makes the search look at the entry
  of the start cell.

  The specification speaks of cells of the grid only. The library takes the node of the
  start and the node of the end out of the rows of the grid before it searches, and the
  call ends with a \<open>TypeError\<close> when the start lies outside the matrix or the row of the
  end does: that is the result \<open>None\<close>. An end whose column alone lies outside is the
  node of no cell, so the search does not reach it.
\<close>

type_synonym matrix = "nat list list"
type_synonym finder = "matrix \<Rightarrow> int \<Rightarrow> int \<Rightarrow> int \<Rightarrow> int \<Rightarrow> (int \<times> int) list option"

definition walkableAt :: "matrix \<Rightarrow> GridPoint \<Rightarrow> bool" where
  "walkableAt m c = (cell_at m (fst c) (snd c) = Some 0)"

definition neighbours :: "matrix \<Rightarrow> GridPoint \<Rightarrow> GridPoint list" where
  "neighbours m c =
     filter (walkableAt m)
       [(fst c, snd c - 1), (fst c + 1, snd c), (fst c, snd c + 1), (fst c - 1, snd c)]"

fun expand :: "matrix \<Rightarrow> GridPoint list \<Rightarrow> GridPoint list list \<Rightarrow> GridPoint list list" where
  "expand m seen [] = []"
| "expand m seen (p # ps) =
     (let fresh = filter (\<lambda>c. c \<notin> set seen) (neighbours m (hd p))
      in map (\<lambda>c. c # p) fresh @ expand m (fresh @ seen) ps)"

function bfs :: "matrix \<Rightarrow> GridPoint \<Rightarrow> GridPoint list \<Rightarrow> GridPoint list list \<Rightarrow> GridPoint list" where
  "bfs m goal seen frontier =
     (case find (\<lambda>p. hd p = goal) frontier of
        Some p \<Rightarrow> rev p
      | None \<Rightarrow>
          (let next = expand m seen frontier
           in if next = [] then [] else bfs m goal (map hd next @ seen) next))"
  by pat_completeness auto

text \<open>
  Every round of the search marks at least one more walkable cell as seen, and the
  walkable cells of a matrix are finitely many: the search returns on every input.
\<close>

lemma neighbours_walkable: "c \<in> set (neighbours m d) \<Longrightarrow> walkableAt m c"
  unfolding neighbours_def by (simp only: set_filter mem_Collect_eq)

lemma expand_heads: "q \<in> set (expand m sn ps) \<Longrightarrow> walkableAt m (hd q) \<and> hd q \<notin> set sn"
proof (induction ps arbitrary: sn)
  case Nil
  then show ?case by simp
next
  case (Cons p ps)
  let ?fresh = "filter (\<lambda>c. c \<notin> set sn) (neighbours m (hd p))"
  from Cons.prems have "q \<in> (\<lambda>c. c # p) ` set ?fresh \<or> q \<in> set (expand m (?fresh @ sn) ps)"
    by (simp add: Let_def del: set_filter)
  then show ?case
  proof
    assume "q \<in> (\<lambda>c. c # p) ` set ?fresh"
    then obtain c where "q = c # p" "c \<in> set (neighbours m (hd p))" "c \<notin> set sn" by auto
    then show ?thesis using neighbours_walkable by simp
  next
    assume "q \<in> set (expand m (?fresh @ sn) ps)"
    from Cons.IH [OF this] show ?thesis by simp
  qed
qed

lemma finite_walkable: "finite {c. walkableAt m c}"
proof -
  let ?rows = "{0..<int (length m)}"
  let ?cols = "{0..<int (Max (insert 0 (length ` set m)))}"
  have "{c. walkableAt m c} \<subseteq> ?cols \<times> ?rows"
  proof
    fix c assume "c \<in> {c. walkableAt m c}"
    then have c: "0 \<le> snd c" "nat (snd c) < length m" "0 \<le> fst c"
      "nat (fst c) < length (m ! nat (snd c))"
      by (simp_all add: walkableAt_def cell_at_def split: if_splits)
    have "length (m ! nat (snd c)) \<in> insert 0 (length ` set m)"
      using c(2) by simp
    then have "length (m ! nat (snd c)) \<le> Max (insert 0 (length ` set m))"
      by (intro Max_ge) simp_all
    with c(4) have "nat (fst c) < Max (insert 0 (length ` set m))" by linarith
    with c(3) have "fst c < int (Max (insert 0 (length ` set m)))" by linarith
    with c have "fst c \<in> ?cols" "snd c \<in> ?rows" by simp_all
    then show "c \<in> ?cols \<times> ?rows" by (simp add: mem_Times_iff)
  qed
  then show ?thesis by (rule finite_subset) simp
qed

lemma expand_shrinks:
  assumes "expand m seen frontier \<noteq> []"
  shows "card {c. walkableAt m c \<and> c \<notin> hd ` set (expand m seen frontier) \<and> c \<notin> set seen}
           < card {c. walkableAt m c \<and> c \<notin> set seen}"
proof -
  obtain q where q: "q \<in> set (expand m seen frontier)"
    using assms hd_in_set by blast
  then have hq: "walkableAt m (hd q)" "hd q \<notin> set seen"
    using expand_heads by blast+
  have "hd q \<in> {c. walkableAt m c \<and> c \<notin> set seen}" using hq by simp
  moreover have "hd q \<notin> {c. walkableAt m c \<and> c \<notin> hd ` set (expand m seen frontier) \<and> c \<notin> set seen}"
    using q by simp
  moreover have "{c. walkableAt m c \<and> c \<notin> hd ` set (expand m seen frontier) \<and> c \<notin> set seen}
      \<subseteq> {c. walkableAt m c \<and> c \<notin> set seen}"
    by auto
  ultimately have "{c. walkableAt m c \<and> c \<notin> hd ` set (expand m seen frontier) \<and> c \<notin> set seen}
      \<subset> {c. walkableAt m c \<and> c \<notin> set seen}"
    by blast
  moreover have "finite {c. walkableAt m c \<and> c \<notin> set seen}"
    using finite_walkable [of m] by simp
  ultimately show ?thesis by (rule psubset_card_mono [rotated])
qed

termination bfs
  by (relation "measure (\<lambda>(m, goal, seen, frontier). card {c. walkableAt m c \<and> c \<notin> set seen})")
     (simp_all add: expand_shrinks)

definition grid_search :: finder where
  "grid_search m startX startY endX endY =
     (if cell_at m startX startY = None \<or> endY < 0 \<or> int (length m) \<le> endY
      then None
      else Some (bfs m (endX, endY) [(startX, startY)] [[(startX, startY)]]))"

subsection \<open>findPath\<close>

text \<open>
  \<open>findPath\<close> with the library's search as its first argument. A cached array is an
  object, so \<open>if (cached)\<close> holds for every hit. When the search raises, \<open>findPath\<close> has
  written nothing yet: the result is \<open>None\<close> and the scene is as it was.
\<close>

definition findPath ::
  "finder \<Rightarrow> GridPoint \<Rightarrow> GridPoint \<Rightarrow> GameScene \<Rightarrow> GridPoint list option \<times> GameScene" where
  "findPath search start goal s =
     (let key = pathKey start goal
      in case cache_get key (pathCache s) of
           Some cached \<Rightarrow> (Some cached, s)
         | None \<Rightarrow>
             (case search (walkMatrix s) (fst start) (snd start) (fst goal) (snd goal) of
                None \<Rightarrow> (None, s)
              | Some rawPath \<Rightarrow>
                  let cells = map (\<lambda>raw. (fst raw, snd raw)) rawPath
                  in if length cells > 0
                     then (Some cells, s\<lparr>pathCache := cache_set key cells (pathCache s)\<rparr>)
                     else (Some cells, s)))"

subsection \<open>Scene creation and sessions\<close>

text \<open>
  \<open>newScene\<close> holds the field initialisers of the class; \<open>create\<close> is the scene's
  \<open>create()\<close> without its input and camera set-up.
\<close>

definition newScene :: GameScene where
  "newScene =
     \<lparr>grid = [], walkMatrix = [], roadCount = 0, statusTimer = 0, flashMessage = [],
      flashTimer = 0, cars = [], carId = 0, carPathsDirty = False, carPathRefreshDelay = 0,
      pathCache = new_PathCache 2048, spawnPoints = [], destinationPoints = [],
      spawnOrder = [], spawnCursor = 0, needsRedraw = False, carSpatialIndex = [],
      sprites = [], nextSprite = 0\<rparr>"

definition create :: "GameScene \<Rightarrow> GameScene" where
  "create s = forceRedraw (seedSimpleRoads (refreshHud True (initializeGrid s)))"

text \<open>
  A session is a sequence of the operations that write the grid, the point sets, the
  path cache, the car list or the id counter; \<open>findPath\<close> runs with the grid search
  above. A \<open>removeCarAt\<close> or a \<open>findPath\<close> that raises leaves the state as it was. The
  other methods of the scene (the brush, the spawn logic, the per-frame update of the
  cars and the path refresh) reach these fields only through the operations listed
  here: the brush is a sequence of \<open>setRoadValue\<close>, a spawn is \<open>findPath\<close> followed by
  \<open>createCar\<close>, and cars leave through \<open>removeCarAt\<close>.
\<close>

datatype op =
    SetRoadValue int int nat
  | ToggleSpawn GridPoint
  | RemoveSpawn GridPoint
  | ToggleDestination GridPoint
  | RemoveDestination GridPoint
  | CreateCar "GridPoint list" nat real
  | RemoveCarAt nat "string option"
  | ClearCars
  | ResetMap
  | FindPath GridPoint GridPoint

fun step :: "op \<Rightarrow> GameScene \<Rightarrow> GameScene" where
  "step (SetRoadValue cx cy v) s = snd (setRoadValue cx cy v s)"
| "step (ToggleSpawn cell) s = toggleSpawn cell s"
| "step (RemoveSpawn cell) s = removeSpawn cell s"
| "step (ToggleDestination cell) s = toggleDestination cell s"
| "step (RemoveDestination cell) s = removeDestination cell s"
| "step (CreateCar cells col speed) s = createCar cells col speed s"
| "step (RemoveCarAt index hint) s = (case removeCarAt index hint s of Some t \<Rightarrow> t | None \<Rightarrow> s)"
| "step ClearCars s = clearCars s"
| "step ResetMap s = resetMap s"
| "step (FindPath start goal) s = snd (findPath grid_search start goal s)"

definition run :: "op list \<Rightarrow> GameScene \<Rightarrow> GameScene" where
  "run ops s = fold step ops s"

text \<open>The ids handed out by the creations of a session, in the order of creation.\<close>

fun created_ids :: "op list \<Rightarrow> GameScene \<Rightarrow> nat list" where
  "created_ids [] s = []"
| "created_ids (CreateCar cells col speed # ops) s =
     (if length cells < 2 then []
      else [car_id (last (cars (createCar cells col speed s)))])
     @ created_ids ops (createCar cells col speed s)"
| "created_ids (other # ops) s = created_ids ops (step other s)"

definition resets_ids :: "op \<Rightarrow> bool" where
  "resets_ids a = (a = ClearCars \<or> a = ResetMap)"

text \<open>
  The scene after \<open>create()\<close> in closed form: the seeded cross of roads with its two side
  streets, two spawn points and two destination points.
\<close>

definition seeded_road :: "nat \<Rightarrow> nat \<Rightarrow> bool" where
  "seeded_road cx cy =
     ((cy = 16 \<and> 3 \<le> cx \<and> cx \<le> 44) \<or> (cx = 24 \<and> 3 \<le> cy \<and> cy \<le> 28) \<or>
      ((cx = 12 \<or> cx = 36) \<and> 10 \<le> cy \<and> cy \<le> 22))"

definition seededScene :: GameScene where
  "seededScene =
     \<lparr>grid = map (\<lambda>cy. map (\<lambda>cx. if seeded_road cx cy then 1 else 0) [0..<48]) [0..<32],
      walkMatrix = map (\<lambda>cy. map (\<lambda>cx. if seeded_road cx cy then 0 else 1) [0..<48]) [0..<32],
      roadCount = 91, statusTimer = 0, flashMessage = [],
      flashTimer = 0, cars = [], carId = 0, carPathsDirty = True, carPathRefreshDelay = 0.25,
      pathCache = new_PathCache 2048,
      spawnPoints = [(''24,4'', (24, 4)), (''4,16'', (4, 16))],
      destinationPoints = [(''24,27'', (24, 27)), (''43,16'', (43, 16))],
      spawnOrder = [(24, 4), (4, 16)], spawnCursor = 0, needsRedraw = False,
      carSpatialIndex = [], sprites = [], nextSprite = 0\<rparr>"

definition startScene :: GameScene where
  "startScene = create newScene"

subsection \<open>Notions used to state the properties\<close>

text \<open>
  The shape of the two matrices, and the mirror invariant: inside the grid the search
  matrix holds 0 exactly where the road matrix holds 1.
\<close>

definition grid_dims :: "matrix \<Rightarrow> bool" where
  "grid_dims g = (length g = nat gridHeight \<and> (\<forall>i<length g. length (g ! i) = nat gridWidth))"

text \<open>The two writes of one cell that \<open>setRoadValue\<close> and \<open>resetMap\<close> make.\<close>

definition put_cell :: "int \<Rightarrow> int \<Rightarrow> nat \<Rightarrow> GameScene \<Rightarrow> GameScene" where
  "put_cell cx cy v s =
     s\<lparr>grid := cell_put (grid s) cx cy v,
       walkMatrix := cell_put (walkMatrix s) cx cy (if v = 1 then 0 else 1)\<rparr>"

definition mirror_ok :: "GameScene \<Rightarrow> bool" where
  "mirror_ok s =
     (grid_dims (grid s) \<and> grid_dims (walkMatrix s) \<and>
      (\<forall>cx cy. isInside cx cy \<longrightarrow>
         (walkMatrix s ! nat cy ! nat cx = 0 \<longleftrightarrow> grid s ! nat cy ! nat cx = 1)))"

text \<open>
  The road cells at Chebyshev distance \<open>radius\<close> from a cell.
\<close>

definition chebyshev :: "GridPoint \<Rightarrow> GridPoint \<Rightarrow> int" where
  "chebyshev c base = max \<bar>fst c - fst base\<bar> \<bar>snd c - snd base\<bar>"

definition ringRoads :: "GameScene \<Rightarrow> GridPoint \<Rightarrow> int \<Rightarrow> GridPoint set" where
  "ringRoads s base radius = {c. isRoad s (fst c) (snd c) \<and> chebyshev c base = radius}"

text \<open>The cells a ring scan visits and keeps, and the shape of its running best.\<close>

definition offsetCell :: "GridPoint \<Rightarrow> int \<times> int \<Rightarrow> GridPoint" where
  "offsetCell base d = (fst base + fst d, snd base + snd d)"

definition ringCandidate :: "GameScene \<Rightarrow> GridPoint \<Rightarrow> int \<Rightarrow> int \<times> int \<Rightarrow> bool" where
  "ringCandidate s base radius d =
     (max \<bar>fst d\<bar> \<bar>snd d\<bar> = radius \<and>
      isRoad s (fst (offsetCell base d)) (snd (offsetCell base d)))"

definition ringCandidates :: "GameScene \<Rightarrow> GridPoint \<Rightarrow> int \<Rightarrow> (int \<times> int) list \<Rightarrow> GridPoint set" where
  "ringCandidates s base radius ds = offsetCell base ` {d \<in> set ds. ringCandidate s base radius d}"

definition bestOk :: "Vector2 \<Rightarrow> (GridPoint \<times> real) option \<Rightarrow> bool" where
  "bestOk pos best = (case best of None \<Rightarrow> True | Some b \<Rightarrow> snd b = tileDistance pos (fst b))"

text \<open>
  Routes: a route of the search from \<open>a\<close> to \<open>b\<close> is a non-empty cell sequence from \<open>a\<close>
  to \<open>b\<close> whose consecutive cells are one unit step apart in one of the four directions
  and whose cells after the first are walkable. \<open>reached m a n\<close> are the cells with a
  route from \<open>a\<close> of at most \<open>n\<close> cells, and \<open>layer_inv\<close> is what holds of the search at
  its \<open>n\<close>-th layer. On a scene, \<open>road_route\<close> is a route along road cells only, both
  ends included, and \<open>entry_route\<close> a route whose cells after the first are road cells.
\<close>

definition adjacent :: "GridPoint \<Rightarrow> GridPoint \<Rightarrow> bool" where
  "adjacent c d = (\<bar>fst c - fst d\<bar> + \<bar>snd c - snd d\<bar> = 1)"

fun chain :: "GridPoint list \<Rightarrow> bool" where
  "chain [] = True"
| "chain [c] = True"
| "chain (c # d # rest) = (adjacent c d \<and> chain (d # rest))"

definition route :: "matrix \<Rightarrow> GridPoint \<Rightarrow> GridPoint \<Rightarrow> GridPoint list \<Rightarrow> bool" where
  "route m a b p =
     (p \<noteq> [] \<and> hd p = a \<and> last p = b \<and> (\<forall>c\<in>set (tl p). walkableAt m c) \<and> chain p)"

definition nbrs :: "matrix \<Rightarrow> GridPoint set \<Rightarrow> GridPoint set" where
  "nbrs m S = (\<Union>c\<in>S. set (neighbours m c))"

definition origin :: "matrix \<Rightarrow> GridPoint \<Rightarrow> GridPoint set" where
  "origin m a = {a}"

fun reached :: "matrix \<Rightarrow> GridPoint \<Rightarrow> nat \<Rightarrow> GridPoint set" where
  "reached m a 0 = {}"
| "reached m a (Suc n) = origin m a \<union> reached m a n \<union> nbrs m (reached m a n)"

definition layer_inv ::
  "matrix \<Rightarrow> GridPoint \<Rightarrow> nat \<Rightarrow> GridPoint list \<Rightarrow> GridPoint list list \<Rightarrow> bool" where
  "layer_inv m a n seen frontier =
     (0 < n \<and> set seen = reached m a n \<and>
      hd ` set frontier = reached m a n - reached m a (n - 1) \<and>
      (\<forall>p\<in>set frontier. route m a (hd p) (rev p) \<and> length p = n))"

definition road_route :: "GameScene \<Rightarrow> GridPoint \<Rightarrow> GridPoint \<Rightarrow> GridPoint list \<Rightarrow> bool" where
  "road_route s a b p =
     (p \<noteq> [] \<and> hd p = a \<and> last p = b \<and> (\<forall>c\<in>set p. isRoad s (fst c) (snd c)) \<and> chain p)"

definition entry_route :: "GameScene \<Rightarrow> GridPoint \<Rightarrow> GridPoint \<Rightarrow> GridPoint list \<Rightarrow> bool" where
  "entry_route s a b p =
     (p \<noteq> [] \<and> hd p = a \<and> last p = b \<and> (\<forall>c\<in>set (tl p). isRoad s (fst c) (snd c)) \<and>
      chain p)"

text \<open>
  The cache is coherent when every path it holds under the key of a pair of cells is
  what the search returns for that pair on the present search matrix.
\<close>

definition cache_coherent :: "GameScene \<Rightarrow> bool" where
  "cache_coherent s =
     (\<forall>a b cells. cache_get (pathKey a b) (pathCache s) = Some cells \<longrightarrow>
        grid_search (walkMatrix s) (fst a) (snd a) (fst b) (snd b) = Some cells)"

text \<open>An operation either leaves cache and search matrix alone or leaves the cache empty.\<close>

definition keeps_or_clears :: "GameScene \<Rightarrow> GameScene \<Rightarrow> bool" where
  "keeps_or_clears s t =
     ((pathCache t = pathCache s \<and> walkMatrix t = walkMatrix s) \<or> store (pathCache t) = [])"

definition is_digit :: "char \<Rightarrow> bool" where
  "is_digit ch = (48 \<le> (of_char ch :: nat) \<and> (of_char ch :: nat) \<le> 57)"

text \<open>
  Two scene states agree on the simulation state when they differ at most in the
  flash message, its timer and the HUD's status timer.
\<close>

definition keeps_simulation_state :: "GameScene \<Rightarrow> GameScene \<Rightarrow> bool" where
  "keeps_simulation_state s t =
     (t\<lparr>flashMessage := flashMessage s, flashTimer := flashTimer s,
        statusTimer := statusTimer s\<rparr> = s)"

definition ids_ok :: "GameScene \<Rightarrow> bool" where
  "ids_ok s = (distinct (map car_id (cars s)) \<and> (\<forall>c\<in>set (cars s). car_id c \<le> carId s))"

text \<open>
  The avoidance rule in the words of the specification: the forward and lateral offsets of
  a neighbour, when a neighbour is in the way, and the cap it puts on the speed.
\<close>

definition forward_offset :: "Car \<Rightarrow> Car \<Rightarrow> real" where
  "forward_offset car other =
     (fst (position other) - fst (position car)) * fst (heading car) +
     (snd (position other) - snd (position car)) * snd (heading car)"

definition lateral_offset :: "Car \<Rightarrow> Car \<Rightarrow> real" where
  "lateral_offset car other =
     \<bar>(fst (position other) - fst (position car)) * snd (heading car) -
      (snd (position other) - snd (position car)) * fst (heading car)\<bar>"

definition blocks :: "Car \<Rightarrow> Car \<Rightarrow> bool" where
  "blocks car other =
     (0 < forward_offset car other \<and>
      lateral_offset car other \<le> 0.9 * width car \<and>
      forward_offset car other < max (1.5 * car_length car) (currentSpeed car * 0.6 + 20))"

definition speed_cap :: "Car \<Rightarrow> real" where
  "speed_cap other = max 20 (currentSpeed other - 10)"

definition follow_step :: "Car \<Rightarrow> Car \<Rightarrow> real \<Rightarrow> real" where
  "follow_step car other desired =
     (if blocks car other then min desired (speed_cap other) else desired)"

text \<open>Two cars on one lane, the follower 20 units behind a standing leader.\<close>

definition follower :: Car where
  "follower =
     \<lparr>car_id = 2, sprite = 1, path = [(112, 528), (144, 528)], gridPath = [(3, 16), (4, 16)],
      destination = (4, 16), targetIndex = 1, position = (112, 528), heading = (1, 0),
      currentSpeed = 50, targetSpeed = 80, maxSpeed = 80, width = 12.8, car_length = 22.4,
      color = 0\<rparr>"

definition leader :: Car where
  "leader =
     \<lparr>car_id = 1, sprite = 0, path = [(112, 528), (144, 528)], gridPath = [(3, 16), (4, 16)],
      destination = (4, 16), targetIndex = 1, position = (132, 528), heading = (1, 0),
      currentSpeed = 0, targetSpeed = 0, maxSpeed = 70, width = 12.8, car_length = 22.4,
      color = 1\<rparr>"

section \<open>Frame lemmas\<close>

lemma fold_frame:
  assumes "\<And>a t. g (f a t) = g t"
  shows "g (fold f xs s) = g s"
  using assms by (induction xs arbitrary: s) simp_all

lemma cars_setRoadValue [simp]:
  "cars (snd (setRoadValue cx cy v s)) = cars s"
  "carId (snd (setRoadValue cx cy v s)) = carId s"
  by (simp_all add: setRoadValue_def Let_def invalidatePaths_def scheduleCarPathRefresh_def
      rebuildSpawnOrder_def)

lemma cars_seedSimpleRoads [simp]:
  "cars (seedSimpleRoads s) = cars s"
  "carId (seedSimpleRoads s) = carId s"
  by (simp_all add: seedSimpleRoads_def Let_def rebuildSpawnOrder_def fold_frame)

lemma cars_clearCells [simp]:
  "cars (clearCells s) = cars s"
  "carId (clearCells s) = carId s"
  by (simp_all add: clearCells_def fold_frame)

lemma cars_resetMap [simp]:
  "cars (resetMap s) = []"
  "carId (resetMap s) = 0"
  by (simp_all add: resetMap_def Let_def showFlash_def refreshHud_def forceRedraw_def
      clearCars_def)

lemma cars_create [simp]:
  "cars (create s) = cars s"
  "carId (create s) = carId s"
  by (simp_all add: create_def forceRedraw_def refreshHud_def initializeGrid_def)

lemma cars_points [simp]:
  "cars (toggleSpawn cell s) = cars s" "carId (toggleSpawn cell s) = carId s"
  "cars (removeSpawn cell s) = cars s" "carId (removeSpawn cell s) = carId s"
  "cars (toggleDestination cell s) = cars s" "carId (toggleDestination cell s) = carId s"
  "cars (removeDestination cell s) = cars s" "carId (removeDestination cell s) = carId s"
  by (simp_all add: toggleSpawn_def removeSpawn_def toggleDestination_def removeDestination_def
      Let_def showFlash_def refreshHud_def invalidatePaths_def scheduleCarPathRefresh_def
      rebuildSpawnOrder_def)

lemma cars_findPath [simp]:
  "cars (snd (findPath search start goal s)) = cars s"
  "carId (snd (findPath search start goal s)) = carId s"
  by (simp_all add: findPath_def Let_def split: option.splits)

lemma createCar_cars:
  "2 \<le> length cells \<Longrightarrow>
     \<exists>c. cars (createCar cells col speed s) = cars s @ [c] \<and> car_id c = Suc (carId s)"
  by (simp add: createCar_def Let_def refreshHud_def)

lemma createCar_carId:
  "carId (createCar cells col speed s) = (if length cells < 2 then carId s else Suc (carId s))"
  by (simp add: createCar_def Let_def refreshHud_def)

lemma removeCarAt_carId [simp]:
  "carId (case removeCarAt i h s of None \<Rightarrow> s | Some t \<Rightarrow> t) = carId s"
  by (simp add: removeCarAt_def Let_def refreshHud_def)

lemma removeCarAt_cars:
  "cars (case removeCarAt i h s of None \<Rightarrow> s | Some t \<Rightarrow> t) =
     (if i < length (cars s) then take i (cars s) @ drop (Suc i) (cars s) else cars s)"
  by (simp add: removeCarAt_def Let_def refreshHud_def)

lemma step_carId_mono:
  "\<not> resets_ids a \<Longrightarrow> carId s \<le> carId (step a s)"
  by (cases a) (simp_all add: resets_ids_def createCar_carId)


section \<open>The seeded scene\<close>

lemma startScene_code [code]: "startScene = seededScene"
  unfolding startScene_def by code_simp

section \<open>Creating a car\<close>

text \<open>
  C10: for a path of fewer than two cells \<open>createCar\<close> returns at its guard: the scene is
  the same afterwards, so no car is added, the id counter stays and no rendering handle
  is made.
\<close>

theorem createCar_short_path_noop:
  "length cells < 2 \<Longrightarrow>
     createCar cells col speed s = s \<and>
     cars (createCar cells col speed s) = cars s \<and>
     carId (createCar cells col speed s) = carId s \<and>
     sprites (createCar cells col speed s) = sprites s \<and>
     nextSprite (createCar cells col speed s) = nextSprite s"
  by (simp add: createCar_def)

theorem createCar_short_path_noop_witness:
  "length [(3::int, 16::int)] < 2 \<and>
   createCar [(3, 16)] 0 60 (create newScene) = create newScene"
  using createCar_short_path_noop [of "[(3, 16)]" 0 60 "create newScene"] by simp

section \<open>Placing points off the road\<close>

lemma created_corner_off_road: "\<not> isRoad (create newScene) 0 0"
  unfolding startScene_def [symmetric] by code_simp

text \<open>
  C9: on a cell that is not a road tile, \<open>toggleSpawn\<close> and \<open>toggleDestination\<close> only show
  their message: the scene afterwards is the scene before with the flash message, the
  flash timer and the status timer set, so the spawn points, the destination points, the
  spawn order, the grid and the path cache are as before.
\<close>

theorem toggle_off_road_rejected:
  "\<not> isRoad s (fst cell) (snd cell) \<Longrightarrow>
     toggleSpawn cell s =
       s\<lparr>flashMessage := ''Place a spawn on a road tile'', flashTimer := 1.2,
         statusTimer := 0\<rparr> \<and>
     toggleDestination cell s =
       s\<lparr>flashMessage := ''Place a destination on a road tile'', flashTimer := 1.2,
         statusTimer := 0\<rparr> \<and>
     keeps_simulation_state s (toggleSpawn cell s) \<and>
     keeps_simulation_state s (toggleDestination cell s)"
  by (simp add: toggleSpawn_def toggleDestination_def showFlash_def refreshHud_def
      keeps_simulation_state_def)

theorem toggle_off_road_rejected_witness:
  "\<not> isRoad (create newScene) (fst (0, 0)) (snd (0, 0)) \<and>
   spawnPoints (toggleSpawn (0, 0) (create newScene)) = spawnPoints (create newScene) \<and>
   destinationPoints (toggleDestination (0, 0) (create newScene)) =
     destinationPoints (create newScene) \<and>
   grid (toggleSpawn (0, 0) (create newScene)) = grid (create newScene) \<and>
   pathCache (toggleDestination (0, 0) (create newScene)) = pathCache (create newScene) \<and>
   flashMessage (toggleSpawn (0, 0) (create newScene)) = ''Place a spawn on a road tile''"
  using toggle_off_road_rejected [of "create newScene" "(0, 0)"] created_corner_off_road
  by simp

section \<open>Car ids\<close>

lemma created_ids_bounds:
  "\<forall>a\<in>set ops. \<not> resets_ids a \<Longrightarrow>
     sorted_wrt (<) (created_ids ops s) \<and> (\<forall>i\<in>set (created_ids ops s). carId s < i)"
proof (induction ops arbitrary: s)
  case Nil
  then show ?case by simp
next
  case (Cons a ops)
  have ih: "sorted_wrt (<) (created_ids ops t) \<and> (\<forall>i\<in>set (created_ids ops t). carId t < i)"
    for t using Cons by simp
  have keep: "\<not> resets_ids a" using Cons.prems by simp
  show ?case
  proof (cases a)
    case (CreateCar cells col speed)
    let ?t = "createCar cells col speed s"
    show ?thesis
    proof (cases "length cells < 2")
      case True
      with ih [of ?t] CreateCar show ?thesis by (simp add: createCar_def)
    next
      case False
      then obtain c where c: "cars ?t = cars s @ [c]" "car_id c = Suc (carId s)"
        using createCar_cars [of cells col speed s] by auto
      have t: "carId ?t = Suc (carId s)" using False by (simp add: createCar_carId)
      from False c t ih [of ?t] CreateCar show ?thesis by (auto simp: less_Suc_eq)
    qed
  next
    case (SetRoadValue cx cy v)
    with ih [of "step a s"] show ?thesis by simp
  next
    case (ToggleSpawn cell)
    with ih [of "step a s"] show ?thesis by simp
  next
    case (RemoveSpawn cell)
    with ih [of "step a s"] show ?thesis by simp
  next
    case (ToggleDestination cell)
    with ih [of "step a s"] show ?thesis by simp
  next
    case (RemoveDestination cell)
    with ih [of "step a s"] show ?thesis by simp
  next
    case (RemoveCarAt index hint)
    with ih [of "step a s"] show ?thesis by simp
  next
    case ClearCars
    with keep show ?thesis by (simp add: resets_ids_def)
  next
    case ResetMap
    with keep show ?thesis by (simp add: resets_ids_def)
  next
    case (FindPath start goal)
    with ih [of "step a s"] show ?thesis by simp
  qed
qed

lemma distinct_map_splice:
  assumes "distinct (map f xs)" "i < length xs"
  shows "distinct (map f (take i xs @ drop (Suc i) xs))"
proof -
  have "xs = take i xs @ xs ! i # drop (Suc i) xs"
    using assms(2) by (rule id_take_nth_drop)
  then have "distinct (map f (take i xs @ xs ! i # drop (Suc i) xs))"
    using assms(1) by simp
  then show ?thesis by auto
qed

lemma ids_ok_step: "ids_ok s \<Longrightarrow> ids_ok (step a s)"
proof (cases a)
  case (CreateCar cells col speed)
  assume ok: "ids_ok s"
  show ?thesis
  proof (cases "length cells < 2")
    case True
    with ok CreateCar show ?thesis by (simp add: createCar_def)
  next
    case False
    then obtain c where c: "cars (createCar cells col speed s) = cars s @ [c]"
      "car_id c = Suc (carId s)"
      using createCar_cars [of cells col speed s] by auto
    with ok False CreateCar show ?thesis
      by (fastforce simp: ids_ok_def createCar_carId)
  qed
next
  case (RemoveCarAt i h)
  assume ok: "ids_ok s"
  show ?thesis
  proof (cases "i < length (cars s)")
    case True
    let ?cs = "take i (cars s) @ drop (Suc i) (cars s)"
    have d: "distinct (map car_id ?cs)"
      using ok True by (intro distinct_map_splice) (simp_all add: ids_ok_def)
    have "set ?cs \<subseteq> set (cars s)"
      by (auto dest: in_set_takeD in_set_dropD)
    then have b: "\<forall>c\<in>set ?cs. car_id c \<le> carId s"
      using ok by (auto simp: ids_ok_def)
    have "cars (step a s) = ?cs" "carId (step a s) = carId s"
      using True RemoveCarAt by (simp_all add: removeCarAt_cars)
    with d b show ?thesis by (simp add: ids_ok_def)
  next
    case False
    with ok RemoveCarAt show ?thesis by (simp add: ids_ok_def removeCarAt_cars)
  qed
qed (simp_all add: ids_ok_def clearCars_def refreshHud_def)

lemma ids_ok_run: "ids_ok s \<Longrightarrow> ids_ok (run ops s)"
  unfolding run_def by (induction ops arbitrary: s) (simp_all add: ids_ok_step)

lemma ids_ok_create: "ids_ok (create newScene)"
  by (simp add: ids_ok_def newScene_def)

text \<open>
  C7, as the code has it: \<open>clearCars\<close> (and \<open>resetMap\<close>, which calls it) sets the id counter
  back to 0. Between two such resets every created car gets an id above the counter and
  above the ids of all cars created before it, whatever removals happen in between; and
  at every moment of a session the live cars have pairwise distinct ids.
\<close>

theorem car_ids_increase_between_clears:
  "((\<forall>a\<in>set ops. \<not> resets_ids a) \<longrightarrow>
      sorted_wrt (<) (created_ids ops s) \<and> (\<forall>i\<in>set (created_ids ops s). carId s < i)) \<and>
   distinct (map car_id (cars (run ops (create newScene))))"
  using created_ids_bounds [of ops s] ids_ok_run [OF ids_ok_create, of ops]
  by (simp add: ids_ok_def)

theorem car_ids_increase_between_clears_witness:
  "created_ids [CreateCar [(3, 16), (4, 16)] 0 60, RemoveCarAt 0 None,
                CreateCar [(3, 16), (4, 16)] 1 70] (create newScene) = [1, 2] \<and>
   sorted_wrt (<) (created_ids [CreateCar [(3, 16), (4, 16)] 0 60, RemoveCarAt 0 None,
                CreateCar [(3, 16), (4, 16)] 1 70] (create newScene))"
  using car_ids_increase_between_clears
    [of "[CreateCar [(3, 16), (4, 16)] 0 60, RemoveCarAt 0 None,
          CreateCar [(3, 16), (4, 16)] 1 70]" "create newScene"]
  by (simp add: resets_ids_def createCar_def Let_def refreshHud_def removeCarAt_def
      newScene_def)

text \<open>
  After a \<open>clearCars\<close> the next car gets the id 1 again, the id of the first car of the
  session.
\<close>

theorem car_ids_repeat_after_clear:
  "created_ids [CreateCar [(3, 16), (4, 16)] 0 60, ClearCars,
                CreateCar [(3, 16), (4, 16)] 0 60] (create newScene) = [1, 1]"
  by (simp add: createCar_def Let_def refreshHud_def clearCars_def newScene_def)

section \<open>The avoidance rule\<close>

lemma blocks_self: "\<not> blocks car car"
  by (simp add: blocks_def forward_offset_def)

lemma computeDesiredSpeed_fold:
  "computeDesiredSpeed car nearby = fold (follow_step car) nearby (maxSpeed car)"
proof -
  have "(\<lambda>other desired.
                 if other = car then desired
                 else
                   let relX = fst (position other) - fst (position car);
                       relY = snd (position other) - snd (position car);
                       forwardness = relX * fst (heading car) + relY * snd (heading car)
                   in if forwardness \<le> 0 then desired
                      else
                        let lateral = \<bar>relX * snd (heading car) - relY * fst (heading car)\<bar>
                        in if lateral > width car * 0.9 then desired
                           else
                             let safeDistance =
                                   max (car_length car * 1.5) (currentSpeed car * 0.6 + 20)
                             in if forwardness < safeDistance
                                then min desired (max 20 (currentSpeed other - 10))
                                else desired) = follow_step car"
    by (intro ext)
       (auto simp: follow_step_def blocks_def forward_offset_def lateral_offset_def
          speed_cap_def Let_def mult.commute)
  then show ?thesis by (simp add: computeDesiredSpeed_def Let_def)
qed

lemma Min_insert_min:
  fixes a b :: real
  assumes "finite S"
  shows "Min (insert (min a b) S) = Min (insert a (insert b S))"
proof (cases "S = {}")
  case True
  then show ?thesis by (simp add: min.commute)
next
  case False
  with assms show ?thesis by (simp add: min.assoc)
qed

lemma fold_follow_step:
  "fold (follow_step car) nearby acc =
     Min (insert acc (speed_cap ` {other \<in> set nearby. blocks car other}))"
proof (induction nearby arbitrary: acc)
  case Nil
  then show ?case by simp
next
  case (Cons other nearby)
  let ?S = "speed_cap ` {o' \<in> set nearby. blocks car o'}"
  have fin: "finite ?S" by simp
  show ?case
  proof (cases "blocks car other")
    case True
    then have eq: "speed_cap ` {o' \<in> set (other # nearby). blocks car o'} = insert (speed_cap other) ?S"
      by auto
    have "Min (insert (min acc (speed_cap other)) ?S) = Min (insert acc (insert (speed_cap other) ?S))"
      using fin by (rule Min_insert_min)
    with True Cons.IH [of "min acc (speed_cap other)"] eq show ?thesis
      by (simp only: follow_step_def fold_simps if_True)
  next
    case False
    then have "speed_cap ` {o' \<in> set (other # nearby). blocks car o'} = ?S" by auto
    with False Cons.IH [of acc] show ?thesis by (simp add: follow_step_def)
  qed
qed

text \<open>
  C4: the desired speed is the least of the car's maximal speed and the caps
  \<open>max 20 (currentSpeed other - 10)\<close> of the neighbours in the way, those with a positive
  forward offset, a lateral offset of at most 0.9 times the car's width and a forward
  offset below \<open>max (1.5 * length) (currentSpeed * 0.6 + 20)\<close>; so for a maximal speed of
  at least 20 it is at least 20.
\<close>

theorem desired_speed_floor:
  "computeDesiredSpeed car nearby =
     Min (insert (maxSpeed car) (speed_cap ` {other \<in> set nearby. blocks car other})) \<and>
   (20 \<le> maxSpeed car \<longrightarrow> 20 \<le> computeDesiredSpeed car nearby)"
proof -
  let ?S = "speed_cap ` {other \<in> set nearby. blocks car other}"
  have eq: "computeDesiredSpeed car nearby = Min (insert (maxSpeed car) ?S)"
    by (simp add: computeDesiredSpeed_fold fold_follow_step)
  have "20 \<le> Min (insert (maxSpeed car) ?S)" if "20 \<le> maxSpeed car"
    using that by (auto simp: speed_cap_def)
  with eq show ?thesis by simp
qed

theorem desired_speed_floor_witness:
  "20 \<le> maxSpeed follower \<and> blocks follower leader \<and>
   computeDesiredSpeed follower [leader] = 20 \<and>
   20 \<le> computeDesiredSpeed follower [leader]"
  using desired_speed_floor [of follower "[leader]"]
  by (simp add: computeDesiredSpeed_def blocks_def forward_offset_def lateral_offset_def
      follower_def leader_def)

section \<open>PathCache: order of eviction\<close>

lemma copy_cell_id [simp]: "copy_cell cell = cell"
  by (simp add: copy_cell_def)

lemma map_copy_cell [simp]: "map copy_cell p = p"
  by (induction p) simp_all

lemma map_has_iff: "map_has k m \<longleftrightarrow> k \<in> set (map fst m)"
  by (simp add: map_has_def)

lemma keys_map_delete: "map fst (map_delete k m) = removeAll k (map fst m)"
  by (induction m) (auto simp: map_delete_def)

lemma length_map_delete: "length (map_delete k m) = length (removeAll k (map fst m))"
  by (metis keys_map_delete length_map)

lemma map_delete_absent: "\<not> map_has k m \<Longrightarrow> map_delete k m = m"
  by (induction m) (auto simp: map_delete_def map_has_def)

lemma map_set_absent: "\<not> map_has k m \<Longrightarrow> map_set k v m = m @ [(k, v)]"
  by (simp add: map_set_def)

lemma map_has_map_delete [simp]: "\<not> map_has k (map_delete k m)"
  by (auto simp: map_has_def map_delete_def)

lemma map_delete_first:
  assumes "distinct (map fst (e # m))"
  shows "map_delete (fst e) (e # m) = m"
proof -
  have "\<not> map_has (fst e) m" using assms by (simp add: map_has_def)
  then show ?thesis by (simp add: map_delete_def map_delete_absent [unfolded map_delete_def])
qed

text \<open>The store after a put: the key's old entry is dropped, the new one appended.\<close>

lemma cache_set_store:
  assumes "distinct (cache_keys c)"
  shows "store (cache_set k p c) =
           (let st = map_delete k (store c) @ [(k, p)]
            in if length st > limit c then tl st else st)"
proof -
  let ?st1 = "if map_has k (store c) then map_delete k (store c) else store c"
  have st1: "?st1 = map_delete k (store c)"
    by (simp add: map_delete_absent)
  have nk: "\<not> map_has k ?st1"
    unfolding st1 by simp
  have st2: "map_set k p ?st1 = map_delete k (store c) @ [(k, p)]"
    using nk st1 by (simp add: map_set_absent)
  have d: "distinct (map fst (map_delete k (store c) @ [(k, p)]))"
    using assms by (simp add: keys_map_delete cache_keys_def distinct_removeAll)
  show ?thesis
  proof (cases "map_delete k (store c) @ [(k, p)]")
    case Nil
    then show ?thesis by simp
  next
    case (Cons e rest)
    with d have "map_delete (fst e) (e # rest) = rest"
      by (intro map_delete_first) simp
    with Cons st2 show ?thesis
      by (simp add: cache_set_def Let_def del: map_set_def)
  qed
qed

lemma cache_set_keys:
  assumes "distinct (cache_keys c)"
  shows "cache_keys (cache_set k p c) =
           (let ks = removeAll k (cache_keys c) @ [k]
            in if length ks > limit c then tl ks else ks)"
  using cache_set_store [OF assms, of k p]
  by (simp add: cache_keys_def Let_def keys_map_delete length_map_delete map_tl)

lemma cache_set_limit [simp]: "limit (cache_set k p c) = limit c"
  by (simp add: cache_set_def Let_def split: list.splits)

lemma cache_set_wf:
  assumes "cache_wf c"
  shows "cache_wf (cache_set k p c)"
proof -
  have d: "distinct (cache_keys c)" and l: "length (cache_keys c) \<le> limit c"
    using assms by (simp_all add: cache_wf_def cache_keys_def)
  let ?ks = "removeAll k (cache_keys c) @ [k]"
  have dk: "distinct ?ks" using d by (simp add: distinct_removeAll)
  have "length (removeAll k (cache_keys c)) \<le> limit c"
    using l by (meson le_trans length_removeAll_less_eq)
  then have lk: "length ?ks \<le> Suc (limit c)"
    by simp
  have "distinct (cache_keys (cache_set k p c))"
    using dk by (simp add: cache_set_keys [OF d] Let_def distinct_tl)
  moreover have "length (cache_keys (cache_set k p c)) \<le> limit c"
    using lk by (simp add: cache_set_keys [OF d] Let_def)
  ultimately show ?thesis by (simp add: cache_wf_def cache_keys_def)
qed

lemma cache_puts_snoc: "cache_puts (es @ [e]) c = cache_set (fst e) (snd e) (cache_puts es c)"
  by (simp add: cache_puts_def)

lemma cache_puts_fresh:
  "distinct (map fst es) \<Longrightarrow>
     limit (cache_puts es (new_PathCache L)) = L \<and>
     cache_keys (cache_puts es (new_PathCache L)) = drop (length es - L) (map fst es)"
proof (induction es rule: rev_induct)
  case Nil
  then show ?case by (simp add: cache_puts_def new_PathCache_def cache_keys_def)
next
  case (snoc e es)
  let ?c = "cache_puts es (new_PathCache L)"
  from snoc have ih: "limit ?c = L" "cache_keys ?c = drop (length es - L) (map fst es)"
    by simp_all
  from snoc.prems have fresh: "fst e \<notin> set (map fst es)" and des: "distinct (map fst es)"
    by simp_all
  have d: "distinct (cache_keys ?c)" using ih(2) des by simp
  have "fst e \<notin> set (drop (length es - L) (map fst es))"
    using fresh in_set_dropD by fast
  then have nk: "removeAll (fst e) (cache_keys ?c) = cache_keys ?c"
    using ih(2) by simp
  show ?case
  proof (cases "length es < L")
    case True
    then show ?thesis
      using ih nk by (simp add: cache_puts_snoc cache_set_keys [OF d] Let_def)
  next
    case False
    have "tl (drop (length es - L) (map fst es) @ [fst e])
        = drop (Suc (length es) - L) (map fst es @ [fst e])"
    proof (cases "L = 0")
      case True
      then show ?thesis by simp
    next
      case pos: False
      with False have "drop (length es - L) (map fst es) \<noteq> []" by simp
      then have "tl (drop (length es - L) (map fst es) @ [fst e])
          = drop (Suc (length es - L)) (map fst es) @ [fst e]"
        by (simp add: tl_append2 drop_Suc tl_drop)
      moreover have "Suc (length es) - L = Suc (length es - L)"
        using False by simp
      moreover have "Suc (length es - L) \<le> length (map fst es)"
        using False pos by simp
      ultimately show ?thesis by simp
    qed
    with False show ?thesis
      using ih nk by (simp add: cache_puts_snoc cache_set_keys [OF d] Let_def)
  qed
qed

lemma cache_apply_gets:
  "fold cache_apply (filter (\<lambda>a. \<not> is_get a) calls) c = fold cache_apply calls c"
proof (induction calls arbitrary: c)
  case Nil
  then show ?case by simp
next
  case (Cons a calls)
  then show ?case by (cases a) simp_all
qed

text \<open>
  C3: putting \<open>limit + 1\<close> distinct keys into a fresh cache leaves \<open>limit\<close> entries, all
  keys but the first one put. Putting a key that is present moves it to the newest place;
  putting a new key into a full cache evicts the key at the oldest place. A \<open>get\<close> does
  not write the store, so a sequence of calls leaves the cache as its puts and clears
  alone do.
\<close>

theorem cache_evicts_oldest_inserted:
  "(distinct (map fst es) \<and> length es = Suc L \<longrightarrow>
      length (store (cache_puts es (new_PathCache L))) = L \<and>
      cache_keys (cache_puts es (new_PathCache L)) = tl (map fst es)) \<and>
   (cache_wf c \<and> k \<in> set (cache_keys c) \<longrightarrow>
      cache_keys (cache_set k p c) = removeAll k (cache_keys c) @ [k]) \<and>
   (cache_wf c \<and> k \<notin> set (cache_keys c) \<and> length (store c) = limit c \<and> 0 < limit c \<longrightarrow>
      cache_keys (cache_set k p c) = tl (cache_keys c) @ [k]) \<and>
   fold cache_apply (filter (\<lambda>a. \<not> is_get a) calls) c = fold cache_apply calls c"
proof -
  have a: "length (store (cache_puts es (new_PathCache L))) = L \<and>
      cache_keys (cache_puts es (new_PathCache L)) = tl (map fst es)"
    if "distinct (map fst es)" "length es = Suc L"
  proof -
    from cache_puts_fresh [OF that(1), of L] that(2)
    have k: "cache_keys (cache_puts es (new_PathCache L)) = tl (map fst es)"
      by (simp add: drop_Suc)
    then have "length (cache_keys (cache_puts es (new_PathCache L))) = L"
      using that(2) by simp
    then have "length (store (cache_puts es (new_PathCache L))) = L"
      by (simp add: cache_keys_def)
    with k show ?thesis by simp
  qed
  have b: "cache_keys (cache_set k p c) = removeAll k (cache_keys c) @ [k]"
    if "cache_wf c" "k \<in> set (cache_keys c)"
  proof -
    have d: "distinct (cache_keys c)" and l: "length (cache_keys c) \<le> limit c"
      using that(1) by (simp_all add: cache_wf_def cache_keys_def)
    have "length (removeAll k (cache_keys c)) < length (cache_keys c)"
      using that(2) by (rule length_removeAll_less)
    with l show ?thesis by (simp add: cache_set_keys [OF d] Let_def)
  qed
  have c: "cache_keys (cache_set k p c) = tl (cache_keys c) @ [k]"
    if "cache_wf c" "k \<notin> set (cache_keys c)" "length (store c) = limit c" "0 < limit c"
  proof -
    have d: "distinct (cache_keys c)"
      using that(1) by (simp add: cache_wf_def)
    have ne: "cache_keys c \<noteq> []" using that(3,4) by (auto simp: cache_keys_def)
    have "removeAll k (cache_keys c) = cache_keys c" using that(2) by simp
    moreover have "length (cache_keys c) = limit c"
      using that(3) by (simp add: cache_keys_def)
    ultimately show ?thesis
      using ne by (simp add: cache_set_keys [OF d] Let_def)
  qed
  from a b c cache_apply_gets show ?thesis by blast
qed

theorem cache_evicts_oldest_inserted_witness:
  "cache_keys (cache_puts [(''a'', [(0, 0)]), (''b'', [(1, 0)]), (''c'', [(2, 0)])]
     (new_PathCache 2)) = [''b'', ''c''] \<and>
   cache_keys (cache_set ''a'' [(5, 5)]
     (cache_puts [(''a'', [(0, 0)]), (''b'', [(1, 0)])] (new_PathCache 2))) = [''b'', ''a''] \<and>
   cache_keys (cache_set ''c'' [(2, 0)]
     (cache_puts [(''a'', [(0, 0)]), (''b'', [(1, 0)])] (new_PathCache 2))) = [''b'', ''c''] \<and>
   cache_keys (fold cache_apply [Put ''a'' [(0, 0)], Put ''b'' [(1, 0)], Get ''a'',
     Put ''c'' [(2, 0)]] (new_PathCache 2)) = [''b'', ''c'']"
  using cache_evicts_oldest_inserted
    [of "[(''a'', [(0, 0)]), (''b'', [(1, 0)]), (''c'', [(2, 0)])]" 2
        "cache_puts [(''a'', [(0, 0)]), (''b'', [(1, 0)])] (new_PathCache 2)" "''a''"
        "[(5, 5)]" "[Put ''a'' [(0, 0)], Put ''b'' [(1, 0)], Get ''a'', Put ''c'' [(2, 0)]]"]
    cache_evicts_oldest_inserted
    [of "[]" 0 "cache_puts [(''a'', [(0, 0)]), (''b'', [(1, 0)])] (new_PathCache 2)" "''c''"
        "[(2, 0)]" "[]"]
  by (simp add: cache_wf_def cache_keys_def cache_puts_def cache_set_def new_PathCache_def
      map_has_def map_set_def map_delete_def)

section \<open>findPath and the cache\<close>

lemma cache_get_set:
  assumes "cache_wf c" "0 < limit c"
  shows "cache_get k (cache_set k p c) = Some p"
proof -
  have d: "distinct (cache_keys c)" and l: "length (store c) \<le> limit c"
    using assms(1) by (simp_all add: cache_wf_def)
  let ?st = "map_delete k (store c) @ [(k, p)]"
  have dst: "distinct (map fst ?st)"
    using d by (simp add: keys_map_delete cache_keys_def distinct_removeAll)
  have "k \<notin> fst ` set (map_delete k (store c))"
    using map_has_map_delete [of k "store c"] by (simp add: map_has_def)
  then have "map_of (map_delete k (store c)) k = None"
    by (simp add: map_of_eq_None_iff)
  then have last_k: "map_of ?st k = Some p"
    by (simp add: map_add_def)
  show ?thesis
  proof (cases "length ?st > limit c")
    case False
    then show ?thesis
      using last_k by (simp add: cache_get_def map_get_def cache_set_store [OF d] Let_def)
  next
    case True
    with assms(2) have "map_delete k (store c) \<noteq> []" by auto
    then obtain e rest where er: "map_delete k (store c) = e # rest"
      by (cases "map_delete k (store c)") auto
    with dst have "fst e \<noteq> k" by auto
    with last_k er have "map_of (tl ?st) k = Some p" by simp
    with True show ?thesis
      by (simp add: cache_get_def map_get_def cache_set_store [OF d] Let_def)
  qed
qed

text \<open>
  C8, as the code has it: the guard of \<open>findPath\<close> is \<open>path.length > 0\<close>. After a cache miss
  an empty search result leaves the scene as it was, and every non-empty result, a
  one-cell result included, is put into the cache under the key of the pair and is what
  the next \<open>get\<close> of that key returns; a hit writes nothing, and neither does a search
  that raises. This holds for every search.
\<close>

theorem findPath_caches_nonempty_results:
  "(cache_get (pathKey start goal) (pathCache s) = None \<and>
    search (walkMatrix s) (fst start) (snd start) (fst goal) (snd goal) = Some [] \<longrightarrow>
      findPath search start goal s = (Some [], s)) \<and>
   (cache_get (pathKey start goal) (pathCache s) = None \<and>
    search (walkMatrix s) (fst start) (snd start) (fst goal) (snd goal) = Some cells \<and>
    cells \<noteq> [] \<longrightarrow>
      findPath search start goal s =
        (Some cells, s\<lparr>pathCache := cache_set (pathKey start goal) cells (pathCache s)\<rparr>) \<and>
      (cache_wf (pathCache s) \<and> 0 < limit (pathCache s) \<longrightarrow>
         cache_get (pathKey start goal)
           (pathCache (snd (findPath search start goal s))) = Some cells)) \<and>
   (cache_get (pathKey start goal) (pathCache s) = Some cached \<longrightarrow>
      findPath search start goal s = (Some cached, s)) \<and>
   (cache_get (pathKey start goal) (pathCache s) = None \<and>
    search (walkMatrix s) (fst start) (snd start) (fst goal) (snd goal) = None \<longrightarrow>
      findPath search start goal s = (None, s))"
  by (simp add: findPath_def Let_def cache_get_set)

theorem findPath_caches_nonempty_results_witness:
  "cache_get (pathKey (24, 4) (24, 6)) (pathCache startScene) = None \<and>
   grid_search (walkMatrix startScene) 24 4 24 6 = Some [(24, 4), (24, 5), (24, 6)] \<and>
   cache_get (pathKey (24, 4) (24, 6))
     (pathCache (snd (findPath grid_search (24, 4) (24, 6) startScene))) =
       Some [(24, 4), (24, 5), (24, 6)] \<and>
   findPath grid_search (0, 0) (24, 6) startScene = (Some [], startScene)"
proof -
  have miss: "cache_get (pathKey (24, 4) (24, 6)) (pathCache startScene) = None"
    by code_simp
  have found: "grid_search (walkMatrix startScene) 24 4 24 6 = Some [(24, 4), (24, 5), (24, 6)]"
    by code_simp
  have miss0: "cache_get (pathKey (0, 0) (24, 6)) (pathCache startScene) = None"
    by code_simp
  have none: "grid_search (walkMatrix startScene) 0 0 24 6 = Some []"
    by code_simp
  have wf: "cache_wf (pathCache startScene)" "0 < limit (pathCache startScene)"
    by code_simp+
  have ne: "[(24, 4), (24, 5), (24, 6)] \<noteq> ([] :: GridPoint list)"
    by simp
  have hit: "cache_get (pathKey (24, 4) (24, 6))
     (pathCache (snd (findPath grid_search (24, 4) (24, 6) startScene))) =
       Some [(24, 4), (24, 5), (24, 6)]"
    using findPath_caches_nonempty_results
            [of "(24, 4)" "(24, 6)" startScene grid_search "[(24, 4), (24, 5), (24, 6)]"]
          miss found ne wf
    by (simp only: fst_conv snd_conv) blast
  have unreach: "findPath grid_search (0, 0) (24, 6) startScene = (Some [], startScene)"
    using findPath_caches_nonempty_results [of "(0, 0)" "(24, 6)" startScene grid_search]
          miss0 none
    by (simp only: fst_conv snd_conv)
  from miss found hit unreach show ?thesis by blast
qed

text \<open>
  For a road cell as both start and end the search yields the single cell, fewer than
  two cells, and \<open>findPath\<close> adds it to the cache under the pair's key.
\<close>

theorem findPath_caches_one_cell_path:
  "fst (findPath grid_search (24, 4) (24, 4) startScene) = Some [(24, 4)] \<and>
   cache_get (pathKey (24, 4) (24, 4)) (pathCache startScene) = None \<and>
   cache_get (pathKey (24, 4) (24, 4))
     (pathCache (snd (findPath grid_search (24, 4) (24, 4) startScene))) = Some [(24, 4)]"
  by code_simp

section \<open>The search matrix mirrors the road matrix\<close>

lemma fold_invariant:
  assumes "P s" "\<And>a t. a \<in> set xs \<Longrightarrow> P t \<Longrightarrow> P (f a t)"
  shows "P (fold f xs s)"
  using assms by (induction xs arbitrary: s) simp_all

lemma mirror_ok_cong:
  "grid t = grid s \<Longrightarrow> walkMatrix t = walkMatrix s \<Longrightarrow> mirror_ok t = mirror_ok s"
  by (simp add: mirror_ok_def)

lemma cell_put_dims:
  assumes "grid_dims g"
  shows "grid_dims (cell_put g cx cy v)"
proof -
  have rows: "length (g ! i) = nat gridWidth" if "i < length g" for i
    using assms that by (simp add: grid_dims_def)
  have "length (cell_put g cx cy v ! i) = nat gridWidth" if "i < length g" for i
  proof (cases "i = nat cy")
    case True
    with that have "cell_put g cx cy v ! i = (g ! i)[nat cx := v]"
      by (simp add: cell_put_def)
    with rows [OF that] show ?thesis by simp
  next
    case False
    then have "cell_put g cx cy v ! i = g ! i"
      by (simp add: cell_put_def)
    with rows [OF that] show ?thesis by simp
  qed
  moreover have "length (cell_put g cx cy v) = length g"
    by (simp add: cell_put_def)
  ultimately show ?thesis
    using assms by (simp add: grid_dims_def)
qed

lemma nth_cell_put:
  assumes "grid_dims g" "isInside cx cy" "isInside px py"
  shows "cell_put g cx cy v ! nat py ! nat px = (if px = cx \<and> py = cy then v else g ! nat py ! nat px)"
proof -
  have r: "nat cy < length g" "nat py < length g" "nat cx < length (g ! nat cy)"
    using assms by (auto simp: grid_dims_def isInside_def)
  have inj: "nat py = nat cy \<longleftrightarrow> py = cy" "nat px = nat cx \<longleftrightarrow> px = cx"
    using assms(2,3) by (auto simp: isInside_def)
  show ?thesis
    using r inj by (auto simp: cell_put_def nth_list_update)
qed

lemma mirror_ok_put_cell:
  assumes "mirror_ok s" "isInside cx cy"
  shows "mirror_ok (put_cell cx cy v s)"
proof -
  have dg: "grid_dims (grid s)" and dw: "grid_dims (walkMatrix s)"
    and m: "\<And>px py. isInside px py \<Longrightarrow>
              (walkMatrix s ! nat py ! nat px = 0 \<longleftrightarrow> grid s ! nat py ! nat px = 1)"
    using assms(1) by (simp_all add: mirror_ok_def)
  have "(cell_put (walkMatrix s) cx cy (if v = 1 then 0 else 1) ! nat py ! nat px = 0 \<longleftrightarrow>
         cell_put (grid s) cx cy v ! nat py ! nat px = 1)" if "isInside px py" for px py
    using m [OF that] by (simp add: nth_cell_put [OF dg assms(2) that] nth_cell_put [OF dw assms(2) that])
  then show ?thesis
    using dg dw by (simp add: mirror_ok_def put_cell_def cell_put_dims)
qed

lemma grid_setRoadValue:
  "grid (snd (setRoadValue cx cy v s)) =
     (if isInside cx cy \<and> cell_at (grid s) cx cy \<noteq> Some v then grid (put_cell cx cy v s)
      else grid s)"
  "walkMatrix (snd (setRoadValue cx cy v s)) =
     (if isInside cx cy \<and> cell_at (grid s) cx cy \<noteq> Some v then walkMatrix (put_cell cx cy v s)
      else walkMatrix s)"
  by (simp_all add: setRoadValue_def Let_def invalidatePaths_def scheduleCarPathRefresh_def
      rebuildSpawnOrder_def put_cell_def)

lemma mirror_ok_setRoadValue:
  assumes "mirror_ok s"
  shows "mirror_ok (snd (setRoadValue cx cy v s))"
proof (cases "isInside cx cy \<and> cell_at (grid s) cx cy \<noteq> Some v")
  case True
  then have "mirror_ok (put_cell cx cy v s)"
    using assms by (simp add: mirror_ok_put_cell)
  moreover have "mirror_ok (snd (setRoadValue cx cy v s)) = mirror_ok (put_cell cx cy v s)"
    using True by (intro mirror_ok_cong) (simp_all add: grid_setRoadValue)
  ultimately show ?thesis by simp
next
  case False
  then have "mirror_ok (snd (setRoadValue cx cy v s)) = mirror_ok s"
    by (intro mirror_ok_cong) (simp_all only: grid_setRoadValue if_False)
  with assms show ?thesis by simp
qed

lemma mirror_ok_initializeGrid: "mirror_ok (initializeGrid s)"
  by (auto simp: mirror_ok_def initializeGrid_def grid_dims_def isInside_def gridWidth_def
      gridHeight_def)

lemma mirror_ok_seedSimpleRoads:
  assumes "mirror_ok s"
  shows "mirror_ok (seedSimpleRoads s)"
proof -
  have step: "mirror_ok (fold (\<lambda>a t. snd (setRoadValue (fx a) (fy a) 1 t)) xs t)"
    if "mirror_ok t" for fx fy :: "'a \<Rightarrow> int" and xs t
    using that by (rule fold_invariant) (simp add: mirror_ok_setRoadValue)
  have step2: "mirror_ok (fold (\<lambda>cy t. snd (setRoadValue qx cy 1 (snd (setRoadValue px cy 1 t)))) xs t)"
    if "mirror_ok t" for px qx xs t
    using that by (rule fold_invariant) (simp add: mirror_ok_setRoadValue)
  let ?midY = "\<lfloor>real_of_int gridHeight / 2\<rfloor>"
  let ?midX = "\<lfloor>real_of_int gridWidth / 2\<rfloor>"
  let ?s1 = "fold (\<lambda>cx t. snd (setRoadValue cx ?midY 1 t)) [3..gridWidth - 3 - 1] s"
  let ?s2 = "fold (\<lambda>cy t. snd (setRoadValue ?midX cy 1 t)) [3..gridHeight - 3 - 1] ?s1"
  let ?s3 = "fold (\<lambda>cy t. snd (setRoadValue \<lfloor>real_of_int gridWidth * 0.75\<rfloor> cy 1
                                   (snd (setRoadValue \<lfloor>real_of_int gridWidth * 0.25\<rfloor> cy 1 t))))
                 [?midY - 6..?midY + 6] ?s2"
  let ?s4 = "fold (\<lambda>point t. snd (setRoadValue (fst point) (snd point) 1 t))
               [(?midX, 4), (?midX, gridHeight - 5), (4, ?midY), (gridWidth - 5, ?midY)] ?s3"
  have "mirror_ok ?s1" using assms by (rule step [of s "\<lambda>cx. cx" "\<lambda>cx. ?midY"])
  then have "mirror_ok ?s2" by (rule step [of ?s1 "\<lambda>cy. ?midX" "\<lambda>cy. cy"])
  then have "mirror_ok ?s3" by (rule step2)
  then have s4: "mirror_ok ?s4" by (rule step [of ?s3 fst snd])
  have "mirror_ok (seedSimpleRoads s) = mirror_ok ?s4"
    by (intro mirror_ok_cong) (simp_all add: seedSimpleRoads_def Let_def rebuildSpawnOrder_def)
  with s4 show ?thesis by simp
qed


lemma mirror_ok_clearCells:
  assumes "mirror_ok s"
  shows "mirror_ok (clearCells s)"
proof -
  have put: "(\<lambda>cx u. u\<lparr>grid := cell_put (grid u) cx cy 0,
                         walkMatrix := cell_put (walkMatrix u) cx cy 1\<rparr>)
             = (\<lambda>cx u. put_cell cx cy 0 u)" for cy
    by (simp add: put_cell_def)
  have row: "mirror_ok (fold (\<lambda>cx u. put_cell cx cy 0 u) [0..gridWidth - 1] t)"
    if "mirror_ok t" "cy \<in> set [0..gridHeight - 1]" for cy t
    using that(1)
  proof (rule fold_invariant)
    fix cx u assume "cx \<in> set [0..gridWidth - 1]" "mirror_ok u"
    with that(2) show "mirror_ok (put_cell cx cy 0 u)"
      by (intro mirror_ok_put_cell) (simp_all add: isInside_def)
  qed
  show ?thesis
    unfolding clearCells_def put
    using assms by (rule fold_invariant) (rule row)
qed

lemma grid_frames [simp]:
  "grid (refreshHud force s) = grid s" "walkMatrix (refreshHud force s) = walkMatrix s"
  "grid (showFlash msg d s) = grid s" "walkMatrix (showFlash msg d s) = walkMatrix s"
  "grid (forceRedraw s) = grid s" "walkMatrix (forceRedraw s) = walkMatrix s"
  "grid (invalidatePaths delay s) = grid s" "walkMatrix (invalidatePaths delay s) = walkMatrix s"
  "grid (rebuildSpawnOrder s) = grid s" "walkMatrix (rebuildSpawnOrder s) = walkMatrix s"
  "grid (clearCars s) = grid s" "walkMatrix (clearCars s) = walkMatrix s"
  "grid (createCar cells col speed s) = grid s"
  "walkMatrix (createCar cells col speed s) = walkMatrix s"
  by (simp_all add: refreshHud_def showFlash_def forceRedraw_def invalidatePaths_def
      scheduleCarPathRefresh_def rebuildSpawnOrder_def clearCars_def createCar_def Let_def)

lemma grid_points [simp]:
  "grid (toggleSpawn cell s) = grid s" "walkMatrix (toggleSpawn cell s) = walkMatrix s"
  "grid (removeSpawn cell s) = grid s" "walkMatrix (removeSpawn cell s) = walkMatrix s"
  "grid (toggleDestination cell s) = grid s"
  "walkMatrix (toggleDestination cell s) = walkMatrix s"
  "grid (removeDestination cell s) = grid s"
  "walkMatrix (removeDestination cell s) = walkMatrix s"
  by (simp_all add: toggleSpawn_def removeSpawn_def toggleDestination_def
      removeDestination_def Let_def)

lemma grid_findPath [simp]:
  "grid (snd (findPath search start goal s)) = grid s"
  "walkMatrix (snd (findPath search start goal s)) = walkMatrix s"
  by (simp_all add: findPath_def Let_def split: option.splits)

lemma grid_removeCarAt [simp]:
  "grid (case removeCarAt i h s of None \<Rightarrow> s | Some t \<Rightarrow> t) = grid s"
  "walkMatrix (case removeCarAt i h s of None \<Rightarrow> s | Some t \<Rightarrow> t) = walkMatrix s"
  by (simp_all add: removeCarAt_def Let_def)

lemma mirror_ok_resetMap:
  assumes "mirror_ok s"
  shows "mirror_ok (resetMap s)"
proof -
  let ?s1 = "clearCells s"
  let ?s2 = "rebuildSpawnOrder (?s1\<lparr>spawnPoints := []\<rparr>)"
  let ?s3 = "?s2\<lparr>destinationPoints := [], pathCache := cache_clear (pathCache ?s2),
                   roadCount := 0\<rparr>"
  have "mirror_ok ?s1" using assms by (rule mirror_ok_clearCells)
  moreover have "mirror_ok (clearCars ?s3) = mirror_ok ?s1"
    by (intro mirror_ok_cong) simp_all
  ultimately have "mirror_ok (seedSimpleRoads (clearCars ?s3))"
    by (simp add: mirror_ok_seedSimpleRoads)
  moreover have "mirror_ok (resetMap s) = mirror_ok (seedSimpleRoads (clearCars ?s3))"
    by (intro mirror_ok_cong) (simp_all add: resetMap_def Let_def)
  ultimately show ?thesis by simp
qed

lemma mirror_ok_step:
  assumes "mirror_ok s"
  shows "mirror_ok (step a s)"
proof (cases a)
  case (SetRoadValue cx cy v)
  with assms show ?thesis by (simp add: mirror_ok_setRoadValue)
next
  case ResetMap
  with assms show ?thesis by (simp add: mirror_ok_resetMap)
next
  case (ToggleSpawn cell)
  then have "mirror_ok (step a s) = mirror_ok s" by (intro mirror_ok_cong) simp_all
  with assms show ?thesis by simp
next
  case (RemoveSpawn cell)
  then have "mirror_ok (step a s) = mirror_ok s" by (intro mirror_ok_cong) simp_all
  with assms show ?thesis by simp
next
  case (ToggleDestination cell)
  then have "mirror_ok (step a s) = mirror_ok s" by (intro mirror_ok_cong) simp_all
  with assms show ?thesis by simp
next
  case (RemoveDestination cell)
  then have "mirror_ok (step a s) = mirror_ok s" by (intro mirror_ok_cong) simp_all
  with assms show ?thesis by simp
next
  case (CreateCar cells col speed)
  then have "mirror_ok (step a s) = mirror_ok s" by (intro mirror_ok_cong) simp_all
  with assms show ?thesis by simp
next
  case (RemoveCarAt index hint)
  then have "mirror_ok (step a s) = mirror_ok s" by (intro mirror_ok_cong) simp_all
  with assms show ?thesis by simp
next
  case ClearCars
  then have "mirror_ok (step a s) = mirror_ok s" by (intro mirror_ok_cong) simp_all
  with assms show ?thesis by simp
next
  case (FindPath start goal)
  then have "mirror_ok (step a s) = mirror_ok s" by (intro mirror_ok_cong) simp_all
  with assms show ?thesis by simp
qed

lemma mirror_ok_run: "mirror_ok s \<Longrightarrow> mirror_ok (run ops s)"
  unfolding run_def by (induction ops arbitrary: s) (simp_all add: mirror_ok_step)

lemma mirror_ok_create: "mirror_ok (create s)"
proof -
  have "mirror_ok (refreshHud True (initializeGrid s)) = mirror_ok (initializeGrid s)"
    by (intro mirror_ok_cong) simp_all
  then have "mirror_ok (seedSimpleRoads (refreshHud True (initializeGrid s)))"
    by (simp add: mirror_ok_initializeGrid mirror_ok_seedSimpleRoads)
  moreover have "mirror_ok (create s)
      = mirror_ok (seedSimpleRoads (refreshHud True (initializeGrid s)))"
    by (intro mirror_ok_cong) (simp_all add: create_def)
  ultimately show ?thesis by simp
qed

lemma isRoad_mirror:
  assumes "mirror_ok s"
  shows "isRoad s cx cy \<longleftrightarrow> isInside cx cy \<and> grid s ! nat cy ! nat cx = 1"
proof (cases "isInside cx cy")
  case True
  have "grid_dims (grid s)" using assms by (simp add: mirror_ok_def)
  with True have "cell_at (grid s) cx cy = Some (grid s ! nat cy ! nat cx)"
    by (simp add: cell_at_def grid_dims_def isInside_def)
  with True show ?thesis by (simp add: isRoad_def)
next
  case False
  then show ?thesis by (simp add: isRoad_def)
qed

text \<open>
  C2: in every state of a session (the scene after \<open>create()\<close>, that is initialization
  and seeding, followed by any operations) both matrices keep their shape and, for every
  cell inside the grid, the search matrix holds 0 exactly where the road matrix holds 1;
  \<open>isRoad\<close> holds exactly for the cells inside the grid whose road entry is 1. The
  initialization establishes the invariant and \<open>setRoadValue\<close>, the seeding and the reset
  each keep it.
\<close>

theorem walk_matrix_mirrors_roads:
  "mirror_ok (run ops (create newScene)) \<and>
   (isInside cx cy \<longrightarrow>
      (walkMatrix (run ops (create newScene)) ! nat cy ! nat cx = 0 \<longleftrightarrow>
       grid (run ops (create newScene)) ! nat cy ! nat cx = 1)) \<and>
   (isRoad (run ops (create newScene)) cx cy \<longleftrightarrow>
      isInside cx cy \<and> grid (run ops (create newScene)) ! nat cy ! nat cx = 1) \<and>
   mirror_ok (initializeGrid s) \<and>
   (mirror_ok s \<longrightarrow>
      mirror_ok (snd (setRoadValue cx cy v s)) \<and> mirror_ok (seedSimpleRoads s) \<and>
      mirror_ok (resetMap s))"
proof -
  have ok: "mirror_ok (run ops (create newScene))"
    by (simp add: mirror_ok_run mirror_ok_create)
  then have "isInside cx cy \<longrightarrow>
      (walkMatrix (run ops (create newScene)) ! nat cy ! nat cx = 0 \<longleftrightarrow>
       grid (run ops (create newScene)) ! nat cy ! nat cx = 1)"
    by (simp add: mirror_ok_def)
  with ok isRoad_mirror [OF ok, of cx cy] show ?thesis
    by (simp add: mirror_ok_initializeGrid mirror_ok_setRoadValue mirror_ok_seedSimpleRoads
        mirror_ok_resetMap)
qed

theorem walk_matrix_mirrors_roads_witness:
  "isInside 0 0 \<and> isInside 24 4 \<and>
   grid (run [SetRoadValue 0 0 1, SetRoadValue 24 4 0] (create newScene)) ! nat 0 ! nat 0 = 1 \<and>
   walkMatrix (run [SetRoadValue 0 0 1, SetRoadValue 24 4 0] (create newScene)) ! nat 0 ! nat 0 = 0 \<and>
   isRoad (run [SetRoadValue 0 0 1, SetRoadValue 24 4 0] (create newScene)) 0 0 \<and>
   grid (run [SetRoadValue 0 0 1, SetRoadValue 24 4 0] (create newScene)) ! nat 4 ! nat 24 = 0 \<and>
   walkMatrix (run [SetRoadValue 0 0 1, SetRoadValue 24 4 0] (create newScene)) ! nat 4 ! nat 24 \<noteq> 0 \<and>
   \<not> isRoad (run [SetRoadValue 0 0 1, SetRoadValue 24 4 0] (create newScene)) 24 4"
proof -
  let ?r = "run [SetRoadValue 0 0 1, SetRoadValue 24 4 0] (create newScene)"
  have r: "?r = snd (setRoadValue 24 4 0 (snd (setRoadValue 0 0 1 startScene)))"
    by (simp add: run_def startScene_def)
  have g1: "grid (snd (setRoadValue 24 4 0 (snd (setRoadValue 0 0 1 startScene)))) ! nat 0 ! nat 0 = 1"
    by code_simp
  have g2: "grid (snd (setRoadValue 24 4 0 (snd (setRoadValue 0 0 1 startScene)))) ! nat 4 ! nat 24 = 0"
    by code_simp
  have i: "isInside 0 0" "isInside 24 4"
    by (simp_all add: isInside_def gridWidth_def gridHeight_def)
  from walk_matrix_mirrors_roads [of "[SetRoadValue 0 0 1, SetRoadValue 24 4 0]" 0 0]
       walk_matrix_mirrors_roads [of "[SetRoadValue 0 0 1, SetRoadValue 24 4 0]" 24 4]
       g1 g2 i
  show ?thesis unfolding r by simp
qed

section \<open>Snapping to the nearest road cell\<close>

lemma ringVisit_eq:
  "ringVisit s pos base r d best =
     (if ringCandidate s base r d
      then (case best of
              None \<Rightarrow> Some (offsetCell base d, tileDistance pos (offsetCell base d))
            | Some b \<Rightarrow>
                if tileDistance pos (offsetCell base d) < snd b
                then Some (offsetCell base d, tileDistance pos (offsetCell base d))
                else best)
      else best)"
  by (auto simp: ringVisit_def ringCandidate_def offsetCell_def Let_def isRoad_def
      split: option.splits)

lemma ringCandidates_Cons:
  "ringCandidates s base r (d # ds) =
     (if ringCandidate s base r d then {offsetCell base d} else {}) \<union> ringCandidates s base r ds"
  by (auto simp: ringCandidates_def)

lemma ringCandidates_Nil [simp]: "ringCandidates s base r [] = {}"
  by (simp add: ringCandidates_def)

lemma ringVisit_None:
  "ringVisit s pos base r d None =
     (if ringCandidate s base r d
      then Some (offsetCell base d, tileDistance pos (offsetCell base d)) else None)"
  by (simp add: ringVisit_eq)

lemma ringVisit_Some:
  "ringVisit s pos base r d (Some b0) =
     (if ringCandidate s base r d \<and> tileDistance pos (offsetCell base d) < snd b0
      then Some (offsetCell base d, tileDistance pos (offsetCell base d)) else Some b0)"
  by (simp add: ringVisit_eq)

lemma bestOk_ringVisit: "bestOk pos best \<Longrightarrow> bestOk pos (ringVisit s pos base r d best)"
  by (cases best) (simp_all add: ringVisit_None ringVisit_Some bestOk_def)

lemma bestOk_fold:
  "bestOk pos best \<Longrightarrow> bestOk pos (fold (ringVisit s pos base r) ds best)"
  by (induction ds arbitrary: best) (simp_all add: bestOk_ringVisit)

lemma fold_ring_None:
  "fold (ringVisit s pos base r) ds best = None \<longleftrightarrow>
     best = None \<and> ringCandidates s base r ds = {}"
proof (induction ds arbitrary: best)
  case Nil
  then show ?case by simp
next
  case (Cons d ds)
  have "ringVisit s pos base r d best = None \<longleftrightarrow> best = None \<and> \<not> ringCandidate s base r d"
    by (cases best) (auto simp: ringVisit_None ringVisit_Some)
  with Cons [of "ringVisit s pos base r d best"] show ?case
    by (auto simp: ringCandidates_Cons)
qed

lemma fold_ring_member:
  "fold (ringVisit s pos base r) ds best = Some b \<Longrightarrow>
     best = Some b \<or> fst b \<in> ringCandidates s base r ds"
proof (induction ds arbitrary: best)
  case Nil
  then show ?case by simp
next
  case (Cons d ds)
  from Cons.prems have "fold (ringVisit s pos base r) ds (ringVisit s pos base r d best) = Some b"
    by simp
  from Cons.IH [OF this] show ?case
  proof
    assume "ringVisit s pos base r d best = Some b"
    then have "best = Some b \<or> (ringCandidate s base r d \<and> fst b = offsetCell base d)"
      by (cases best) (auto simp: ringVisit_None ringVisit_Some split: if_splits)
    then show ?thesis by (auto simp: ringCandidates_Cons)
  next
    assume "fst b \<in> ringCandidates s base r ds"
    then show ?thesis by (simp add: ringCandidates_Cons)
  qed
qed

lemma fold_ring_least:
  "bestOk pos best \<Longrightarrow> fold (ringVisit s pos base r) ds best = Some b \<Longrightarrow>
     (\<forall>c\<in>ringCandidates s base r ds. snd b \<le> tileDistance pos c) \<and>
     (\<forall>b0. best = Some b0 \<longrightarrow> snd b \<le> snd b0)"
proof (induction ds arbitrary: best)
  case Nil
  then show ?case by simp
next
  case (Cons d ds)
  let ?best' = "ringVisit s pos base r d best"
  have ok: "bestOk pos ?best'" using Cons.prems(1) by (rule bestOk_ringVisit)
  from Cons.prems(2) have f: "fold (ringVisit s pos base r) ds ?best' = Some b" by simp
  from Cons.IH [OF ok f]
  have ih: "\<forall>c\<in>ringCandidates s base r ds. snd b \<le> tileDistance pos c"
    "\<forall>b0. ?best' = Some b0 \<longrightarrow> snd b \<le> snd b0"
    by simp_all
  have old: "snd b \<le> snd b0" if b0: "best = Some b0" for b0
  proof (cases "ringCandidate s base r d \<and> tileDistance pos (offsetCell base d) < snd b0")
    case True
    with b0 have "?best' = Some (offsetCell base d, tileDistance pos (offsetCell base d))"
      by (simp add: ringVisit_Some)
    with ih(2) have "snd b \<le> tileDistance pos (offsetCell base d)" by simp
    with True show ?thesis by simp
  next
    case False
    have "?best' = Some b0"
      unfolding b0 ringVisit_Some by (rule if_not_P) (rule False)
    with ih(2) show ?thesis by simp
  qed
  have new: "snd b \<le> tileDistance pos (offsetCell base d)" if cand: "ringCandidate s base r d"
  proof (cases best)
    case None
    with cand have "?best' = Some (offsetCell base d, tileDistance pos (offsetCell base d))"
      by (simp add: ringVisit_None)
    with ih(2) show ?thesis by simp
  next
    case (Some b0)
    show ?thesis
    proof (cases "tileDistance pos (offsetCell base d) < snd b0")
      case True
      with cand Some have "?best' = Some (offsetCell base d, tileDistance pos (offsetCell base d))"
        by (simp add: ringVisit_Some)
      with ih(2) show ?thesis by simp
    next
      case False
      with old [OF Some] show ?thesis by simp
    qed
  qed
  from ih(1) old new show ?case
    by (auto simp: ringCandidates_Cons)
qed

lemma set_ringOffsets:
  "set (ringOffsets r) = {d. - r \<le> fst d \<and> fst d \<le> r \<and> - r \<le> snd d \<and> snd d \<le> r}"
  by (auto simp: ringOffsets_def)

lemma ringCandidates_ring:
  "ringCandidates s base r (ringOffsets r) = ringRoads s base r"
proof
  show "ringCandidates s base r (ringOffsets r) \<subseteq> ringRoads s base r"
    by (auto simp: ringCandidates_def ringCandidate_def ringRoads_def chebyshev_def
        offsetCell_def)
next
  show "ringRoads s base r \<subseteq> ringCandidates s base r (ringOffsets r)"
  proof
    fix c assume c: "c \<in> ringRoads s base r"
    let ?d = "(fst c - fst base, snd c - snd base)"
    from c have m: "max \<bar>fst ?d\<bar> \<bar>snd ?d\<bar> = r" and road: "isRoad s (fst c) (snd c)"
      by (simp_all add: ringRoads_def chebyshev_def)
    from m have "?d \<in> set (ringOffsets r)"
      unfolding set_ringOffsets by auto
    moreover have "offsetCell base ?d = c" by (simp add: offsetCell_def)
    moreover from m road this have "ringCandidate s base r ?d"
      by (simp add: ringCandidate_def)
    ultimately show "c \<in> ringCandidates s base r (ringOffsets r)"
      unfolding ringCandidates_def by (metis (mono_tags, lifting) image_eqI mem_Collect_eq)
  qed
qed

lemma scanRing_None: "scanRing s pos base r = None \<longleftrightarrow> ringRoads s base r = {}"
  by (simp add: scanRing_def fold_ring_None ringCandidates_ring)

lemma scanRing_Some:
  assumes "scanRing s pos base r = Some b"
  shows "fst b \<in> ringRoads s base r \<and>
         (\<forall>c\<in>ringRoads s base r. tileDistance pos (fst b) \<le> tileDistance pos c)"
proof -
  have f: "fold (ringVisit s pos base r) (ringOffsets r) None = Some b"
    using assms by (simp add: scanRing_def)
  have ok0: "bestOk pos None" by (simp add: bestOk_def)
  from fold_ring_member [OF f] have mem: "fst b \<in> ringRoads s base r"
    by (simp add: ringCandidates_ring)
  from bestOk_fold [OF ok0, of s base r "ringOffsets r"] f
  have d: "snd b = tileDistance pos (fst b)"
    by (simp add: bestOk_def)
  from fold_ring_least [OF ok0 f] d mem show ?thesis
    by (simp add: ringCandidates_ring)
qed


lemma searchRings_empty:
  "\<forall>r\<in>set rs. ringRoads s base r = {} \<Longrightarrow> searchRings s pos base rs = None"
proof (induction rs)
  case Nil
  then show ?case by simp
next
  case (Cons r0 rs)
  then have "scanRing s pos base r0 = None" by (simp add: scanRing_None)
  with Cons show ?case by simp
qed

lemma searchRings_first:
  assumes "\<forall>r'\<in>set pre. ringRoads s base r' = {}" "ringRoads s base r \<noteq> {}"
  shows "\<exists>c. searchRings s pos base (pre @ r # post) = Some c \<and> c \<in> ringRoads s base r \<and>
             (\<forall>c'\<in>ringRoads s base r. tileDistance pos c \<le> tileDistance pos c')"
  using assms(1)
proof (induction pre)
  case Nil
  from assms(2) obtain b where b: "scanRing s pos base r = Some b"
    using scanRing_None [of s pos base r] by (cases "scanRing s pos base r") auto
  with scanRing_Some [OF b] show ?case by simp
next
  case (Cons r0 pre)
  then have "scanRing s pos base r0 = None" by (simp add: scanRing_None)
  with Cons show ?case by simp
qed

lemma baseCell_inside:
  "isInside \<lfloor>fst pos / real_of_int tileSize\<rfloor> \<lfloor>snd pos / real_of_int tileSize\<rfloor> \<Longrightarrow>
     baseCell pos = (\<lfloor>fst pos / real_of_int tileSize\<rfloor>, \<lfloor>snd pos / real_of_int tileSize\<rfloor>)"
  by (simp add: baseCell_def Let_def)

lemma findNearest_on_road:
  "isRoad s (fst (baseCell pos)) (snd (baseCell pos)) \<Longrightarrow>
     findNearestRoadCell pos maxRadius s = Some (baseCell pos)"
  by (simp add: findNearestRoadCell_def Let_def)

lemma findNearest_first_ring:
  assumes "\<not> isRoad s (fst (baseCell pos)) (snd (baseCell pos))"
    and "1 \<le> r" "r \<le> max 1 maxRadius"
    and "ringRoads s (baseCell pos) r \<noteq> {}"
    and "\<forall>r'. 1 \<le> r' \<and> r' < r \<longrightarrow> ringRoads s (baseCell pos) r' = {}"
  shows "\<exists>c. findNearestRoadCell pos maxRadius s = Some c \<and> c \<in> ringRoads s (baseCell pos) r \<and>
             (\<forall>c'\<in>ringRoads s (baseCell pos) r. tileDistance pos c \<le> tileDistance pos c')"
proof -
  have split: "[1..max 1 maxRadius] = [1..r - 1] @ r # [r + 1..max 1 maxRadius]"
    using assms(2,3) by (rule upto_split3)
  have pre: "\<forall>r'\<in>set [1..r - 1]. ringRoads s (baseCell pos) r' = {}"
    using assms(5) by simp
  from searchRings_first [OF pre assms(4), of pos "[r + 1..max 1 maxRadius]"] assms(1)
  show ?thesis
    by (simp add: findNearestRoadCell_def Let_def split)
qed

lemma findNearest_none:
  assumes "\<not> isRoad s (fst (baseCell pos)) (snd (baseCell pos))"
    and "\<forall>r. 1 \<le> r \<and> r \<le> max 1 maxRadius \<longrightarrow> ringRoads s (baseCell pos) r = {}"
  shows "findNearestRoadCell pos maxRadius s = None"
proof -
  have "\<forall>r\<in>set [1..max 1 maxRadius]. ringRoads s (baseCell pos) r = {}"
    using assms(2) by simp
  then have "searchRings s pos (baseCell pos) [1..max 1 maxRadius] = None"
    by (rule searchRings_empty)
  with assms(1) show ?thesis
    by (simp add: findNearestRoadCell_def Let_def)
qed

text \<open>
  C5, as the code has it: the number of rings searched is \<open>max 1 maxRadius\<close>. For a
  position whose containing cell is inside the grid that cell is the base of the search.
  If the base is a road it is returned. Otherwise, at the first ring (of Chebyshev radius
  1, 2, ... up to \<open>max 1 maxRadius\<close>) that holds a road cell, the result is a road cell of
  that ring whose tile centre is at least as close to the position as that of every road
  cell of the ring; and if no ring up to \<open>max 1 maxRadius\<close> holds a road cell, in
  particular on a grid without roads, the result is none.
\<close>

theorem nearest_road_by_rings:
  "(isInside \<lfloor>fst pos / real_of_int tileSize\<rfloor> \<lfloor>snd pos / real_of_int tileSize\<rfloor> \<longrightarrow>
      baseCell pos = (\<lfloor>fst pos / real_of_int tileSize\<rfloor>, \<lfloor>snd pos / real_of_int tileSize\<rfloor>)) \<and>
   (isRoad s (fst (baseCell pos)) (snd (baseCell pos)) \<longrightarrow>
      findNearestRoadCell pos maxRadius s = Some (baseCell pos)) \<and>
   (\<not> isRoad s (fst (baseCell pos)) (snd (baseCell pos)) \<and>
    1 \<le> r \<and> r \<le> max 1 maxRadius \<and> ringRoads s (baseCell pos) r \<noteq> {} \<and>
    (\<forall>r'. 1 \<le> r' \<and> r' < r \<longrightarrow> ringRoads s (baseCell pos) r' = {}) \<longrightarrow>
      (\<exists>c. findNearestRoadCell pos maxRadius s = Some c \<and> c \<in> ringRoads s (baseCell pos) r \<and>
           (\<forall>c'\<in>ringRoads s (baseCell pos) r. tileDistance pos c \<le> tileDistance pos c'))) \<and>
   (\<not> isRoad s (fst (baseCell pos)) (snd (baseCell pos)) \<and>
    (\<forall>r. 1 \<le> r \<and> r \<le> max 1 maxRadius \<longrightarrow> ringRoads s (baseCell pos) r = {}) \<longrightarrow>
      findNearestRoadCell pos maxRadius s = None) \<and>
   ((\<forall>cx cy. \<not> isRoad s cx cy) \<longrightarrow> findNearestRoadCell pos maxRadius s = None)"
proof -
  have "findNearestRoadCell pos maxRadius s = None" if "\<forall>cx cy. \<not> isRoad s cx cy"
    using that by (intro findNearest_none) (simp_all add: ringRoads_def)
  then show ?thesis
    using baseCell_inside [of pos] findNearest_on_road [of s pos maxRadius]
      findNearest_first_ring [of s pos r maxRadius] findNearest_none [of s pos maxRadius]
    by blast
qed

theorem nearest_road_by_rings_witness:
  "baseCell (756, 510) = (23, 15) \<and> \<not> isRoad startScene 23 15 \<and>
   findNearestRoadCell (756, 510) 48 startScene = Some (23, 16) \<and>
   (24, 15) \<in> ringRoads startScene (23, 15) 1 \<and>
   tileDistance (756, 510) (23, 16) \<le> tileDistance (756, 510) (24, 15) \<and>
   findNearestRoadCell (24, 4) 48 (initializeGrid newScene) = None"
proof -
  have base: "baseCell (756, 510) = (23, 15)"
    by code_simp
  have inside: "isInside \<lfloor>fst (756 :: real, 510 :: real) / real_of_int tileSize\<rfloor>
                  \<lfloor>snd (756 :: real, 510 :: real) / real_of_int tileSize\<rfloor>"
    by code_simp
  have off: "\<not> isRoad startScene 23 15"
    by code_simp
  have roads: "isRoad startScene 24 15" "isRoad startScene 23 16"
    by code_simp+
  have found: "findNearestRoadCell (756, 510) 48 startScene = Some (23, 16)"
    by code_simp
  have ring: "(24, 15) \<in> ringRoads startScene (23, 15) 1"
    using roads by (simp add: ringRoads_def chebyshev_def)
  have empty: "\<not> isRoad (initializeGrid newScene) cx cy" for cx cy
    by (simp add: isRoad_def isInside_def cell_at_def initializeGrid_def gridWidth_def
        gridHeight_def)
  from nearest_road_by_rings [of "(756, 510)" startScene 48 1] base off ring
  obtain c where c: "findNearestRoadCell (756, 510) 48 startScene = Some c"
    "\<forall>c'\<in>ringRoads startScene (23, 15) 1. tileDistance (756, 510) c \<le> tileDistance (756, 510) c'"
    by auto
  from c(1) found have "c = (23, 16)" by simp
  with c(2) ring have least: "tileDistance (756, 510) (23, 16) \<le> tileDistance (756, 510) (24, 15)"
    by blast
  from nearest_road_by_rings [of "(24, 4)" "initializeGrid newScene" 48 1] empty
  have none: "findNearestRoadCell (24, 4) 48 (initializeGrid newScene) = None"
    by blast
  from base off found ring least none show ?thesis by blast
qed

text \<open>
  With \<open>maxRadius = 0\<close> no ring lies within the radius and the containing cell is not a
  road, yet the first ring is searched and its road cell returned.
\<close>

theorem nearest_road_searches_one_ring_at_least:
  "baseCell (80, 528) = (2, 16) \<and> \<not> isRoad startScene 2 16 \<and>
   findNearestRoadCell (80, 528) 0 startScene = Some (3, 16)"
  by code_simp

section \<open>PathCache: copies on put and get\<close>

lemma copyCells_Cons:
  "copyCells (a # rest) h =
     (nextAddr h # fst (copyCells rest (snd (newCell (copy_cell (cellAt h a)) h))),
      snd (copyCells rest (snd (newCell (copy_cell (cellAt h a)) h))))"
  by (simp add: newCell_def Let_def split: prod.splits)

lemma copyCells_spec:
  assumes "\<forall>a\<in>set refs. a < nextAddr h"
  shows "set (fst (copyCells refs h)) \<subseteq> {nextAddr h..<nextAddr h + length refs} \<and>
         nextAddr (snd (copyCells refs h)) = nextAddr h + length refs \<and>
         arrayAt (snd (copyCells refs h)) = arrayAt h \<and>
         (\<forall>a<nextAddr h. cellAt (snd (copyCells refs h)) a = cellAt h a) \<and>
         map (cellAt (snd (copyCells refs h))) (fst (copyCells refs h)) = map (cellAt h) refs"
  using assms
proof (induction refs arbitrary: h)
  case Nil
  then show ?case by simp
next
  case (Cons a rest)
  let ?h1 = "snd (newCell (copy_cell (cellAt h a)) h)"
  let ?rs = "fst (copyCells rest ?h1)"
  let ?h2 = "snd (copyCells rest ?h1)"
  have n1: "nextAddr ?h1 = Suc (nextAddr h)" "arrayAt ?h1 = arrayAt h"
    "\<And>x. x < nextAddr h \<Longrightarrow> cellAt ?h1 x = cellAt h x"
    "cellAt ?h1 (nextAddr h) = cellAt h a"
    by (simp_all add: newCell_def copy_cell_def)
  have "\<forall>x\<in>set rest. x < nextAddr ?h1" using Cons.prems n1(1) by auto
  note IH = Cons.IH [OF this]
  have ih1: "set ?rs \<subseteq> {nextAddr ?h1..<nextAddr ?h1 + length rest}"
    using IH by (rule conjunct1)
  have ih2: "nextAddr ?h2 = nextAddr ?h1 + length rest"
    using IH by blast
  have ih3: "arrayAt ?h2 = arrayAt ?h1"
    using IH by blast
  have ih4: "\<And>x. x < nextAddr ?h1 \<Longrightarrow> cellAt ?h2 x = cellAt ?h1 x"
    using IH by blast
  have ih5: "map (cellAt ?h2) ?rs = map (cellAt ?h1) rest"
    using IH by blast
  have rest_old: "map (cellAt ?h1) rest = map (cellAt h) rest"
    using Cons.prems n1(3) by simp
  have c1: "set (nextAddr h # ?rs) \<subseteq> {nextAddr h..<nextAddr h + length (a # rest)}"
    using ih1 n1(1) by auto
  have c2: "nextAddr ?h2 = nextAddr h + length (a # rest)"
    using ih2 n1(1) by simp
  have c3: "arrayAt ?h2 = arrayAt h"
    using ih3 n1(2) by simp
  have c4: "\<forall>x<nextAddr h. cellAt ?h2 x = cellAt h x"
    using ih4 n1(1,3) by simp
  have "cellAt ?h2 (nextAddr h) = cellAt h a"
    using ih4 [of "nextAddr h"] n1(1,4) by simp
  then have c5: "map (cellAt ?h2) (nextAddr h # ?rs) = map (cellAt h) (a # rest)"
    using ih5 rest_old by simp
  show ?case
    unfolding copyCells_Cons fst_conv snd_conv
    using c1 c2 c3 c4 c5 by blast
qed

lemma copyPath_spec:
  assumes "allocated h a"
  shows "fst (copyPath a h) = nextAddr h \<and>
         nextAddr h < nextAddr (snd (copyPath a h)) \<and>
         set (arrayAt (snd (copyPath a h)) (nextAddr h))
           \<subseteq> {nextAddr h<..<nextAddr (snd (copyPath a h))} \<and>
         contents (snd (copyPath a h)) (nextAddr h) = contents h a \<and>
         (\<forall>x<nextAddr h. cellAt (snd (copyPath a h)) x = cellAt h x \<and>
                         arrayAt (snd (copyPath a h)) x = arrayAt h x)"
proof -
  let ?h1 = "snd (newArray h)"
  let ?rs = "fst (copyCells (arrayAt h a) ?h1)"
  let ?h2 = "snd (copyCells (arrayAt h a) ?h1)"
  have n1: "nextAddr ?h1 = Suc (nextAddr h)" "cellAt ?h1 = cellAt h"
    "\<And>x. x < nextAddr h \<Longrightarrow> arrayAt ?h1 x = arrayAt h x"
    by (simp_all add: newArray_def)
  have "\<forall>x\<in>set (arrayAt h a). x < nextAddr ?h1"
    using assms n1(1) by (auto simp: allocated_def)
  note S = copyCells_spec [OF this]
  have s1: "set ?rs \<subseteq> {nextAddr ?h1..<nextAddr ?h1 + length (arrayAt h a)}"
    using S by (rule conjunct1)
  have s2: "nextAddr ?h2 = nextAddr ?h1 + length (arrayAt h a)" using S by blast
  have s3: "arrayAt ?h2 = arrayAt ?h1" using S by blast
  have s4: "\<And>x. x < nextAddr ?h1 \<Longrightarrow> cellAt ?h2 x = cellAt ?h1 x" using S by blast
  have s5: "map (cellAt ?h2) ?rs = map (cellAt ?h1) (arrayAt h a)" using S by blast
  have eq: "copyPath a h = (nextAddr h, ?h2\<lparr>arrayAt := (arrayAt ?h2)(nextAddr h := ?rs)\<rparr>)"
    by (simp add: copyPath_def newArray_def Let_def split: prod.splits)
  have c2: "nextAddr h < nextAddr ?h2" using s2 n1(1) by simp
  have c3: "set ?rs \<subseteq> {nextAddr h<..<nextAddr ?h2}" using s1 s2 n1(1) by auto
  have c4: "map (cellAt ?h2) ?rs = map (cellAt h) (arrayAt h a)" using s5 n1(2) by simp
  have c5: "\<forall>x<nextAddr h. cellAt ?h2 x = cellAt h x \<and> arrayAt ?h2 x = arrayAt h x"
    using s3 s4 n1 by simp
  show ?thesis
    unfolding eq using c2 c3 c4 c5 by (simp add: contents_def)
qed


lemma put_entry_eq:
  assumes "distinct (map fst st)"
  shows "put_entry k v cap st =
           (let st' = map_delete k st @ [(k, v)] in if length st' > cap then tl st' else st')"
proof -
  let ?st1 = "if map_has k st then map_delete k st else st"
  have st1: "?st1 = map_delete k st"
    by (simp add: map_delete_absent)
  have st2: "map_set k v ?st1 = map_delete k st @ [(k, v)]"
    unfolding st1 by (simp add: map_set_absent)
  have d: "distinct (map fst (map_delete k st @ [(k, v)]))"
    using assms by (simp add: keys_map_delete distinct_removeAll)
  show ?thesis
  proof (cases "map_delete k st @ [(k, v)]")
    case Nil
    then show ?thesis by simp
  next
    case (Cons e rest)
    with d have "map_delete (fst e) (e # rest) = rest"
      by (intro map_delete_first) simp
    with Cons st2 show ?thesis
      by (simp add: put_entry_def Let_def del: map_set_def)
  qed
qed

lemma put_entry_lookup:
  assumes "distinct (map fst st)" "0 < cap"
  shows "map_get k (put_entry k v cap st) = Some v"
proof -
  let ?st = "map_delete k st @ [(k, v)]"
  have dst: "distinct (map fst ?st)"
    using assms(1) by (simp add: keys_map_delete distinct_removeAll)
  have "k \<notin> fst ` set (map_delete k st)"
    using map_has_map_delete [of k st] by (simp add: map_has_def)
  then have "map_of (map_delete k st) k = None"
    by (simp add: map_of_eq_None_iff)
  then have last_k: "map_of ?st k = Some v"
    by (simp add: map_add_def)
  show ?thesis
  proof (cases "length ?st > cap")
    case False
    then show ?thesis
      using last_k by (simp add: map_get_def put_entry_eq [OF assms(1)] Let_def)
  next
    case True
    with assms(2) have "map_delete k st \<noteq> []" by auto
    then obtain e rest where er: "map_delete k st = e # rest"
      by (cases "map_delete k st") auto
    with dst have "fst e \<noteq> k" by auto
    with last_k er have "map_of (tl ?st) k = Some v" by simp
    with True show ?thesis
      by (simp add: map_get_def put_entry_eq [OF assms(1)] Let_def)
  qed
qed

lemma hcache_set_eq:
  "hcache_set k p h c =
     (snd (copyPath p h), c\<lparr>hstore := put_entry k (fst (copyPath p h)) (hlimit c) (hstore c)\<rparr>)"
  by (simp add: hcache_set_def put_entry_def Let_def split: prod.splits list.splits)

lemma agree_on_refl: "agree_on A h h"
  by (simp add: agree_on_def)

lemma agree_on_mutate:
  "agree_on A h h' \<Longrightarrow> target m \<notin> A \<Longrightarrow> agree_on A h (mutate m h')"
  by (cases m) (auto simp: agree_on_def)

lemma agree_on_copyPath:
  assumes "agree_on A h h'" "\<forall>a\<in>A. a < nextAddr h" "allocated h' a"
  shows "agree_on A h (snd (copyPath a h'))"
proof -
  note S = copyPath_spec [OF assms(3)]
  have lt: "nextAddr h' < nextAddr (snd (copyPath a h'))" using S by blast
  have frame: "\<And>x. x < nextAddr h' \<Longrightarrow>
      cellAt (snd (copyPath a h')) x = cellAt h' x \<and> arrayAt (snd (copyPath a h')) x = arrayAt h' x"
    using S by blast
  have le: "nextAddr h \<le> nextAddr h'" using assms(1) by (simp add: agree_on_def)
  have "cellAt (snd (copyPath a h')) x = cellAt h x \<and> arrayAt (snd (copyPath a h')) x = arrayAt h x"
    if "x \<in> A" for x
  proof -
    from that assms(2) le have "x < nextAddr h'" by fastforce
    from frame [OF this] assms(1) that show ?thesis by (simp add: agree_on_def)
  qed
  with lt le show ?thesis by (simp add: agree_on_def)
qed

text \<open>The put proper: its snapshot lies in the addresses the put allocates.\<close>

lemma hcache_set_snapshot:
  assumes "allocated h p" "distinct (map fst (hstore c))" "0 < hlimit c"
    and "hcache_set k p h c = (h1, c1)"
  shows "map_get k (hstore c1) = Some (nextAddr h) \<and>
         nextAddr h < nextAddr h1 \<and>
         set (arrayAt h1 (nextAddr h)) \<subseteq> {nextAddr h<..<nextAddr h1} \<and>
         contents h1 (nextAddr h) = contents h p"
proof -
  note S = copyPath_spec [OF assms(1)]
  have h1: "h1 = snd (copyPath p h)"
    and c1: "c1 = c\<lparr>hstore := put_entry k (fst (copyPath p h)) (hlimit c) (hstore c)\<rparr>"
    using assms(4) by (simp_all add: hcache_set_eq)
  have snap: "fst (copyPath p h) = nextAddr h" using S by blast
  have "map_get k (hstore c1) = Some (nextAddr h)"
    unfolding c1 snap using assms(2,3) by (simp add: put_entry_lookup)
  with S show ?thesis unfolding h1 by blast
qed

lemma hcache_get_after_put:
  assumes "map_get k (hstore c1) = Some snap"
    and "snap < nextAddr h1" "set (arrayAt h1 snap) \<subseteq> A" "snap \<in> A" "\<forall>a\<in>A. a < nextAddr h1"
    and "agree_on A h1 h2"
    and "hcache_get k h2 c1 = (res, h3)"
  shows "res = Some (nextAddr h2) \<and> contents h3 (nextAddr h2) = contents h1 snap \<and>
         set (arrayAt h3 (nextAddr h2)) \<subseteq> {nextAddr h2<..<nextAddr h3} \<and>
         agree_on A h1 h3"
proof -
  have le: "nextAddr h1 \<le> nextAddr h2" using assms(6) by (simp add: agree_on_def)
  have arr: "arrayAt h2 snap = arrayAt h1 snap"
    using assms(4,6) by (simp add: agree_on_def)
  have cells: "cellAt h2 x = cellAt h1 x" if "x \<in> set (arrayAt h1 snap)" for x
    using that assms(3,6) by (auto simp: agree_on_def)
  have same: "contents h2 snap = contents h1 snap"
    using arr cells by (simp add: contents_def)
  have al: "allocated h2 snap"
    using assms(2,3,5) le arr by (fastforce simp: allocated_def)
  note S = copyPath_spec [OF al]
  have res: "res = Some (fst (copyPath snap h2))" and h3: "h3 = snd (copyPath snap h2)"
    using assms(1,7) by (simp_all add: hcache_get_def Let_def split: prod.splits)
  have fst_eq: "fst (copyPath snap h2) = nextAddr h2" using S by blast
  have "contents h3 (nextAddr h2) = contents h2 snap" unfolding h3 using S by blast
  moreover have "set (arrayAt h3 (nextAddr h2)) \<subseteq> {nextAddr h2<..<nextAddr h3}"
    unfolding h3 using S by blast
  moreover have "agree_on A h1 h3"
    unfolding h3 using assms(6,5) al by (rule agree_on_copyPath)
  ultimately show ?thesis using res fst_eq same by simp
qed

text \<open>
  C6, for a cache whose limit is at least 1: \<open>h1\<close>, \<open>c1\<close> are heap and cache after
  \<open>put(k, p)\<close>; the put allocates the addresses from \<open>nextAddr h\<close> up to \<open>nextAddr h1\<close>,
  and \<open>p\<close> and its cells lie outside them. \<open>h2\<close> is any heap the client can reach from
  \<open>h1\<close>: it agrees with \<open>h1\<close> on those addresses, as every heap does that results from
  writes to \<open>p\<close>, to its cells, to arrays and cells returned by a \<open>get\<close>, and from
  allocations. Then \<open>get(k)\<close> returns a new array, not \<open>p\<close> and not the cache's snapshot,
  whose cells are new objects and whose content is the content \<open>p\<close> had at the put; the
  heap after the \<open>get\<close>, and that heap after any write outside the put's addresses, is
  again such a heap, so every later \<open>get(k)\<close> returns that content too.
\<close>

theorem cache_get_returns_private_copy:
  assumes "allocated h p" and "distinct (map fst (hstore c))" and "0 < hlimit c"
    and "hcache_set k p h c = (h1, c1)"
    and "agree_on {nextAddr h..<nextAddr h1} h1 h2"
    and "hcache_get k h2 c1 = (res, h3)"
  shows "res = Some (nextAddr h2) \<and>
         contents h3 (nextAddr h2) = contents h p \<and>
         nextAddr h2 \<noteq> p \<and> nextAddr h2 \<notin> {nextAddr h..<nextAddr h1} \<and>
         set (arrayAt h3 (nextAddr h2)) \<inter> ({nextAddr h..<nextAddr h1} \<union> set (arrayAt h p)) = {} \<and>
         p \<notin> {nextAddr h..<nextAddr h1} \<and> set (arrayAt h p) \<inter> {nextAddr h..<nextAddr h1} = {} \<and>
         agree_on {nextAddr h..<nextAddr h1} h1 h1 \<and>
         agree_on {nextAddr h..<nextAddr h1} h1 h3 \<and>
         (\<forall>m. target m \<notin> {nextAddr h..<nextAddr h1} \<longrightarrow>
              agree_on {nextAddr h..<nextAddr h1} h1 (mutate m h3))"
proof -
  let ?A = "{nextAddr h..<nextAddr h1}"
  note P = hcache_set_snapshot [OF assms(1-4)]
  have p1: "map_get k (hstore c1) = Some (nextAddr h)" using P by blast
  have p2: "nextAddr h < nextAddr h1" using P by blast
  have p3: "set (arrayAt h1 (nextAddr h)) \<subseteq> {nextAddr h<..<nextAddr h1}" using P by blast
  have p4: "contents h1 (nextAddr h) = contents h p" using P by blast
  have sub: "set (arrayAt h1 (nextAddr h)) \<subseteq> ?A" using p3 by auto
  have inA: "nextAddr h \<in> ?A" using p2 by simp
  have below: "\<forall>a\<in>?A. a < nextAddr h1" by simp
  note G = hcache_get_after_put [OF p1 p2 sub inA below assms(5,6)]
  have g1: "res = Some (nextAddr h2)" using G by blast
  have g2: "contents h3 (nextAddr h2) = contents h1 (nextAddr h)" using G by blast
  have g3: "set (arrayAt h3 (nextAddr h2)) \<subseteq> {nextAddr h2<..<nextAddr h3}" using G by blast
  have g4: "agree_on ?A h1 h3" using G by blast
  have le: "nextAddr h1 \<le> nextAddr h2" using assms(5) by (simp add: agree_on_def)
  have pa: "p < nextAddr h" "\<forall>x\<in>set (arrayAt h p). x < nextAddr h"
    using assms(1) by (simp_all add: allocated_def)
  have fresh: "nextAddr h2 \<noteq> p" "nextAddr h2 \<notin> ?A" using le p2 pa(1) by simp_all
  have cells: "set (arrayAt h3 (nextAddr h2)) \<inter> (?A \<union> set (arrayAt h p)) = {}"
    using g3 le p2 pa(2) by fastforce
  have pout: "p \<notin> ?A" "set (arrayAt h p) \<inter> ?A = {}" using pa by fastforce+
  have mut: "\<forall>m. target m \<notin> ?A \<longrightarrow> agree_on ?A h1 (mutate m h3)"
    using g4 by (simp add: agree_on_mutate)
  from g1 g2 p4 fresh cells pout g4 mut agree_on_refl [of ?A h1] show ?thesis
    by simp
qed


lemma heap_scenario_next: "nextAddr heap0 = 3" "nextAddr heap1 = 6" "nextAddr heap2 = 6"
  "nextAddr heap3 = 9" "nextAddr heap4 = 9"
  by (simp_all add: heap4_def heap3_def heap2_def heap1_def hcache1_def heap0_def hcache0_def
      hcache_set_def hcache_get_def copyPath_def newArray_def newCell_def copy_cell_def Let_def
      map_has_def map_set_def map_get_def)

theorem cache_get_returns_private_copy_witness:
  "allocated heap0 0 \<and> contents heap0 0 = [(3, 16), (4, 16)] \<and>
   contents heap2 0 = [] \<and>
   fst (hcache_get ''3,16:4,16'' heap2 hcache1) = Some 6 \<and>
   contents heap3 6 = [(3, 16), (4, 16)] \<and>
   contents heap4 6 = [(0, 0)] \<and>
   fst (hcache_get ''3,16:4,16'' heap4 hcache1) = Some 9 \<and>
   contents (snd (hcache_get ''3,16:4,16'' heap4 hcache1)) 9 = [(3, 16), (4, 16)]"
proof -
  let ?A = "{nextAddr heap0..<nextAddr heap1}"
  have al: "allocated heap0 0"
    by (simp add: allocated_def heap0_def)
  have p0: "contents heap0 0 = [(3, 16), (4, 16)]"
    by (simp add: contents_def heap0_def)
  have d: "distinct (map fst (hstore hcache0))" and l: "0 < hlimit hcache0"
    by (simp_all add: hcache0_def)
  have put: "hcache_set ''3,16:4,16'' 0 heap0 hcache0 = (heap1, hcache1)"
    by (simp add: heap1_def hcache1_def)
  have ag2: "agree_on ?A heap1 heap2"
    unfolding heap2_def
    by (intro agree_on_mutate agree_on_refl) (simp_all add: heap_scenario_next)
  have get2: "hcache_get ''3,16:4,16'' heap2 hcache1
      = (fst (hcache_get ''3,16:4,16'' heap2 hcache1), heap3)"
    by (simp add: heap3_def)
  note T1 = cache_get_returns_private_copy [OF al d l put ag2 get2]
  have r1: "fst (hcache_get ''3,16:4,16'' heap2 hcache1) = Some 6"
    using T1 by (simp add: heap_scenario_next)
  have c1: "contents heap3 6 = [(3, 16), (4, 16)]"
    using T1 p0 by (simp add: heap_scenario_next)
  have ag3: "agree_on ?A heap1 heap3" using T1 by blast
  have ag4: "agree_on ?A heap1 heap4"
    unfolding heap4_def using ag3
    by (intro agree_on_mutate) (simp_all add: heap_scenario_next)
  have get4: "hcache_get ''3,16:4,16'' heap4 hcache1
      = (fst (hcache_get ''3,16:4,16'' heap4 hcache1),
         snd (hcache_get ''3,16:4,16'' heap4 hcache1))"
    by simp
  note T2 = cache_get_returns_private_copy [OF al d l put ag4 get4]
  have r2: "fst (hcache_get ''3,16:4,16'' heap4 hcache1) = Some 9"
    using T2 by (simp add: heap_scenario_next)
  have c2: "contents (snd (hcache_get ''3,16:4,16'' heap4 hcache1)) 9 = [(3, 16), (4, 16)]"
    using T2 p0 by (simp add: heap_scenario_next)
  have m0: "contents heap2 0 = []"
    by (simp add: heap2_def contents_def)
  have m6: "contents heap4 6 = [(0, 0)]"
    by (simp add: heap4_def contents_def)
  from al p0 m0 r1 c1 m6 r2 c2 show ?thesis by blast
qed

text \<open>
  With limit 0 the size after the put exceeds the limit and the put evicts the oldest
  key, which is the entry it has just stored: \<open>get(k)\<close> right after \<open>put(k, p)\<close> is a
  miss, on the store of references and on the cache of lists alike.
\<close>

theorem cache_get_misses_at_limit_zero:
  "allocated heap0 0 \<and> contents heap0 0 = [(3, 16), (4, 16)] \<and>
   hstore (snd (hcache_set ''3,16:4,16'' 0 heap0 \<lparr>hstore = [], hlimit = 0\<rparr>)) = [] \<and>
   fst (hcache_get ''3,16:4,16''
          (fst (hcache_set ''3,16:4,16'' 0 heap0 \<lparr>hstore = [], hlimit = 0\<rparr>))
          (snd (hcache_set ''3,16:4,16'' 0 heap0 \<lparr>hstore = [], hlimit = 0\<rparr>))) = None \<and>
   cache_get ''3,16:4,16'' (cache_set ''3,16:4,16'' [(3, 16), (4, 16)] (new_PathCache 0)) = None"
proof -
  have al: "allocated heap0 0"
    by (simp add: allocated_def heap0_def)
  have p0: "contents heap0 0 = [(3, 16), (4, 16)]"
    by (simp add: contents_def heap0_def)
  have st: "hstore (snd (hcache_set ''3,16:4,16'' 0 heap0 \<lparr>hstore = [], hlimit = 0\<rparr>)) = []"
    by (simp add: hcache_set_eq put_entry_def map_has_def map_set_def map_delete_def)
  then have miss: "fst (hcache_get ''3,16:4,16''
          (fst (hcache_set ''3,16:4,16'' 0 heap0 \<lparr>hstore = [], hlimit = 0\<rparr>))
          (snd (hcache_set ''3,16:4,16'' 0 heap0 \<lparr>hstore = [], hlimit = 0\<rparr>))) = None"
    by (simp add: hcache_get_def map_get_def)
  have "cache_get ''3,16:4,16'' (cache_set ''3,16:4,16'' [(3, 16), (4, 16)] (new_PathCache 0))
      = None"
    by (simp add: cache_get_def cache_set_def new_PathCache_def map_has_def map_set_def
        map_delete_def map_get_def Let_def)
  with al p0 st miss show ?thesis by simp
qed

text \<open>
  The cache of lists used in the rest of this theory is the cache of references with
  every reference replaced by the content of its array.
\<close>

lemma map_delete_map:
  "map_delete k (map (\<lambda>e. (fst e, f (snd e))) st) = map (\<lambda>e. (fst e, f (snd e))) (map_delete k st)"
  by (induction st) (simp_all add: map_delete_def)

lemma map_of_map_snd:
  "map_of (map (\<lambda>e. (fst e, f (snd e))) st) k = map_option f (map_of st k)"
  by (induction st) auto

lemma contents_copyPath_old:
  assumes "allocated h p" "allocated h a"
  shows "contents (snd (copyPath p h)) a = contents h a"
proof -
  note S = copyPath_spec [OF assms(1)]
  have frame: "\<And>x. x < nextAddr h \<Longrightarrow>
      cellAt (snd (copyPath p h)) x = cellAt h x \<and> arrayAt (snd (copyPath p h)) x = arrayAt h x"
    using S by blast
  have a: "a < nextAddr h" "\<forall>x\<in>set (arrayAt h a). x < nextAddr h"
    using assms(2) by (simp_all add: allocated_def)
  from frame [OF a(1)] a(2) frame show ?thesis
    by (simp add: contents_def)
qed

lemma hcache_set_refines:
  assumes "allocated h p" "\<forall>e\<in>set (hstore c). allocated h (snd e)"
    and "distinct (map fst (hstore c))"
  shows "abs_cache (fst (hcache_set k p h c)) (snd (hcache_set k p h c))
           = cache_set k (contents h p) (abs_cache h c)"
proof -
  let ?h1 = "snd (copyPath p h)"
  let ?snap = "fst (copyPath p h)"
  let ?f0 = "\<lambda>e. (fst e, contents h (snd e))"
  let ?f1 = "\<lambda>e. (fst e, contents ?h1 (snd e))"
  note S = copyPath_spec [OF assms(1)]
  have snap: "?snap = nextAddr h" using S by blast
  have csnap: "contents ?h1 ?snap = contents h p" unfolding snap using S by blast
  have old: "map ?f1 st = map ?f0 st" if sub: "set st \<subseteq> set (hstore c)" for st
  proof (rule map_cong [OF refl])
    fix e assume "e \<in> set st"
    with sub assms(2) have "allocated h (snd e)" by blast
    then show "?f1 e = ?f0 e"
      by (simp add: contents_copyPath_old [OF assms(1)])
  qed
  have dk: "distinct (cache_keys (abs_cache h c))"
    using assms(3) by (simp add: cache_keys_def abs_cache_def comp_def)
  have "set (map_delete k (hstore c)) \<subseteq> set (hstore c)"
    by (auto simp: map_delete_def)
  from old [OF this]
  have m: "map ?f1 (map_delete k (hstore c) @ [(k, ?snap)])
      = map_delete k (map ?f0 (hstore c)) @ [(k, contents h p)]"
    by (simp add: csnap map_delete_map)
  have lhs: "store (abs_cache (fst (hcache_set k p h c)) (snd (hcache_set k p h c)))
      = map ?f1 (let st = map_delete k (hstore c) @ [(k, ?snap)]
                 in if length st > hlimit c then tl st else st)"
    by (simp add: hcache_set_eq abs_cache_def put_entry_eq [OF assms(3)])
  have rhs: "store (cache_set k (contents h p) (abs_cache h c))
      = (let st = map_delete k (map ?f0 (hstore c)) @ [(k, contents h p)]
         in if length st > hlimit c then tl st else st)"
    using cache_set_store [OF dk, of k "contents h p"] by (simp add: abs_cache_def)
  have len: "length (map_delete k (map ?f0 (hstore c))) = length (map_delete k (hstore c))"
    by (simp add: map_delete_map)
  have "store (abs_cache (fst (hcache_set k p h c)) (snd (hcache_set k p h c)))
      = store (cache_set k (contents h p) (abs_cache h c))"
    unfolding lhs rhs using m len by (simp add: Let_def map_tl)
  moreover have "limit (abs_cache (fst (hcache_set k p h c)) (snd (hcache_set k p h c)))
      = limit (cache_set k (contents h p) (abs_cache h c))"
    by (simp add: abs_cache_def hcache_set_eq)
  ultimately show ?thesis by simp
qed

lemma hcache_get_refines:
  assumes "\<forall>e\<in>set (hstore c). allocated h (snd e)"
  shows "map_option (contents (snd (hcache_get k h c))) (fst (hcache_get k h c))
           = cache_get k (abs_cache h c)"
proof (cases "map_get k (hstore c)")
  case None
  then have "map_of (map (\<lambda>e. (fst e, contents h (snd e))) (hstore c)) k = None"
    by (simp add: map_get_def map_of_map_snd)
  with None show ?thesis
    by (simp add: hcache_get_def cache_get_def abs_cache_def map_get_def)
next
  case (Some a)
  then have mem: "(k, a) \<in> set (hstore c)"
    by (simp add: map_get_def map_of_SomeD)
  with assms have al: "allocated h a" by auto
  note S = copyPath_spec [OF al]
  have c: "contents (snd (copyPath a h)) (fst (copyPath a h)) = contents h a"
    using S by metis
  have "map_of (map (\<lambda>e. (fst e, contents h (snd e))) (hstore c)) k = Some (contents h a)"
    using Some by (simp add: map_get_def map_of_map_snd)
  with Some c show ?thesis
    by (simp add: hcache_get_def cache_get_def abs_cache_def map_get_def Let_def
        case_prod_beta)
qed

section \<open>The keys of the path cache\<close>

lemma digit_code: "d < 10 \<Longrightarrow> (of_char (digit_char d) :: nat) = 48 + d"
  by (simp add: digit_char_def)

lemma digit_char_inj: "d < 10 \<Longrightarrow> e < 10 \<Longrightarrow> digit_char d = digit_char e \<Longrightarrow> d = e"
  by (metis digit_code add_left_cancel)

lemma is_digit_digit_char: "d < 10 \<Longrightarrow> is_digit (digit_char d)"
  by (simp add: is_digit_def digit_code)

lemma not_digit [simp]: "\<not> is_digit CHR '',''" "\<not> is_digit CHR '':''" "\<not> is_digit CHR ''-''"
  by (simp_all add: is_digit_def)

declare show_nat.simps [simp del]

lemma show_nat_digits: "\<forall>ch\<in>set (show_nat n). is_digit ch"
proof (induction n rule: show_nat.induct)
  case (1 n)
  show ?case
  proof (cases "n < 10")
    case True
    then show ?thesis by (simp add: show_nat.simps [of n] is_digit_digit_char)
  next
    case False
    with 1 show ?thesis
      by (simp add: show_nat.simps [of n] is_digit_digit_char)
  qed
qed

lemma show_nat_nonempty: "show_nat n \<noteq> []"
  by (simp add: show_nat.simps [of n])

lemma show_nat_inj: "show_nat n = show_nat k \<Longrightarrow> n = k"
proof (induction n arbitrary: k rule: show_nat.induct)
  case (1 n)
  show ?case
  proof (cases "n < 10")
    case small: True
    show ?thesis
    proof (cases "k < 10")
      case True
      with small 1(2) show ?thesis
        by (simp add: show_nat.simps [of n] show_nat.simps [of k] digit_char_inj)
    next
      case False
      with small 1(2) show_nat_nonempty [of "k div 10"] show ?thesis
        by (simp add: show_nat.simps [of n] show_nat.simps [of k])
    qed
  next
    case big: False
    show ?thesis
    proof (cases "k < 10")
      case True
      with big 1(2) show_nat_nonempty [of "n div 10"] show ?thesis
        by (simp add: show_nat.simps [of n] show_nat.simps [of k])
    next
      case False
      with big 1(2) have eq: "show_nat (n div 10) = show_nat (k div 10)"
        "digit_char (n mod 10) = digit_char (k mod 10)"
        by (simp_all add: show_nat.simps [of n] show_nat.simps [of k])
      from 1(1) [OF big eq(1)] have "n div 10 = k div 10" .
      moreover from eq(2) have "n mod 10 = k mod 10"
        by (intro digit_char_inj) simp_all
      ultimately show ?thesis by (metis div_mult_mod_eq)
    qed
  qed
qed

lemma show_nat_chars: "CHR '','' \<notin> set (show_nat n)" "CHR '':'' \<notin> set (show_nat n)"
  using show_nat_digits [of n] not_digit(1,2) by blast+

lemma show_int_chars: "CHR '','' \<notin> set (show_int i)" "CHR '':'' \<notin> set (show_int i)"
  by (simp_all add: show_int_def show_nat_chars)

lemma show_int_inj: "show_int i = show_int j \<Longrightarrow> i = j"
proof -
  assume eq: "show_int i = show_int j"
  have nodash: "hd (show_nat n) \<noteq> CHR ''-''" for n
    using show_nat_digits [of n] show_nat_nonempty [of n] not_digit(3)
    by (metis hd_in_set)
  show ?thesis
  proof (cases "i < 0")
    case neg: True
    show ?thesis
    proof (cases "j < 0")
      case True
      with neg eq have "show_nat (nat (- i)) = show_nat (nat (- j))"
        by (simp add: show_int_def)
      then have "nat (- i) = nat (- j)" by (rule show_nat_inj)
      with neg True show ?thesis by simp
    next
      case False
      with neg eq have "CHR ''-'' # show_nat (nat (- i)) = show_nat (nat j)"
        by (simp add: show_int_def)
      then have "hd (show_nat (nat j)) = CHR ''-''" by (metis list.sel(1))
      with nodash show ?thesis by blast
    qed
  next
    case pos: False
    show ?thesis
    proof (cases "j < 0")
      case True
      with pos eq have "show_nat (nat i) = CHR ''-'' # show_nat (nat (- j))"
        by (simp add: show_int_def)
      then have "hd (show_nat (nat i)) = CHR ''-''" by (metis list.sel(1))
      with nodash show ?thesis by blast
    next
      case False
      with pos eq have "show_nat (nat i) = show_nat (nat j)"
        by (simp add: show_int_def)
      then have "nat i = nat j" by (rule show_nat_inj)
      with pos False show ?thesis by simp
    qed
  qed
qed

lemma split_at_separator:
  assumes "xs @ sep # ys = xs' @ sep # ys'" "sep \<notin> set xs" "sep \<notin> set xs'"
  shows "xs = xs' \<and> ys = ys'"
  using assms
proof (induction xs arbitrary: xs')
  case Nil
  then show ?case by (cases xs') auto
next
  case (Cons x xs)
  then show ?case by (cases xs') auto
qed

lemma pathKey_inj:
  assumes "pathKey a b = pathKey a' b'"
  shows "a = a' \<and> b = b'"
proof -
  from assms have
    "show_int (fst a) @ CHR '','' # (show_int (snd a) @ '':'' @ show_int (fst b) @ '','' @ show_int (snd b))
     = show_int (fst a') @ CHR '','' # (show_int (snd a') @ '':'' @ show_int (fst b') @ '','' @ show_int (snd b'))"
    by (simp add: pathKey_def)
  from split_at_separator [OF this show_int_chars(1) show_int_chars(1)]
  have 1: "show_int (fst a) = show_int (fst a')"
    and "show_int (snd a) @ CHR '':'' # (show_int (fst b) @ '','' @ show_int (snd b))
       = show_int (snd a') @ CHR '':'' # (show_int (fst b') @ '','' @ show_int (snd b'))"
    by simp_all
  from split_at_separator [OF this(2) show_int_chars(2) show_int_chars(2)]
  have 2: "show_int (snd a) = show_int (snd a')"
    and "show_int (fst b) @ CHR '','' # show_int (snd b)
       = show_int (fst b') @ CHR '','' # show_int (snd b')"
    by simp_all
  from split_at_separator [OF this(2) show_int_chars(1) show_int_chars(1)]
  have 3: "show_int (fst b) = show_int (fst b')" "show_int (snd b) = show_int (snd b')"
    by simp_all
  from 1 2 3 show ?thesis
    by (simp add: show_int_inj prod_eq_iff)
qed

section \<open>The grid search finds shortest routes\<close>

lemma nbrs_Un: "nbrs m (A \<union> B) = nbrs m A \<union> nbrs m B"
  by (simp add: nbrs_def)

lemma nbrs_I: "c \<in> S \<Longrightarrow> d \<in> set (neighbours m c) \<Longrightarrow> d \<in> nbrs m S"
  unfolding nbrs_def by blast

lemma nbrs_E: "d \<in> nbrs m S \<Longrightarrow> \<exists>c\<in>S. d \<in> set (neighbours m c)"
  unfolding nbrs_def by blast

declare bfs.simps [simp del]

lemma neighbours_iff:
  "d \<in> set (neighbours m c) \<longleftrightarrow> walkableAt m d \<and> adjacent c d"
proof -
  have "adjacent c d \<longleftrightarrow>
      d = (fst c, snd c - 1) \<or> d = (fst c + 1, snd c) \<or> d = (fst c, snd c + 1) \<or>
      d = (fst c - 1, snd c)"
    unfolding adjacent_def prod_eq_iff by (cases c; cases d) (simp; linarith)
  then show ?thesis
    by (auto simp: neighbours_def)
qed

lemma chain_snoc:
  "chain (xs @ [c]) \<longleftrightarrow> chain xs \<and> (xs \<noteq> [] \<longrightarrow> adjacent (last xs) c)"
  by (induction xs rule: chain.induct) simp_all

lemma reached_mono: "reached m a n \<subseteq> reached m a (Suc n)"
  by auto

lemma reached_mono_le: "n \<le> k \<Longrightarrow> reached m a n \<subseteq> reached m a k"
proof (induction k)
  case 0
  then show ?case by simp
next
  case (Suc k)
  then show ?case using reached_mono [of m a k] by (cases "n = Suc k") auto
qed

lemma route_snoc:
  assumes "route m a c p" "d \<in> set (neighbours m c)"
  shows "route m a d (p @ [d])"
  using assms by (auto simp: route_def chain_snoc neighbours_iff)

lemma route_reached: "route m a b p \<Longrightarrow> b \<in> reached m a (length p)"
proof (induction p arbitrary: b rule: rev_induct)
  case Nil
  then show ?case by (simp add: route_def)
next
  case (snoc c q)
  from snoc.prems have b: "b = c" by (simp add: route_def)
  show ?case
  proof (cases "q = []")
    case True
    with snoc.prems b show ?thesis by (simp add: route_def origin_def)
  next
    case False
    with snoc.prems have "route m a (last q) q" "adjacent (last q) c" "walkableAt m c"
      by (auto simp: route_def chain_snoc)
    with snoc.IH have "last q \<in> reached m a (length q)" "c \<in> set (neighbours m (last q))"
      by (simp_all add: neighbours_iff)
    then have "c \<in> nbrs m (reached m a (length q))" by (rule nbrs_I)
    then show ?thesis unfolding b by simp
  qed
qed

lemma reached_route: "b \<in> reached m a n \<Longrightarrow> \<exists>p. route m a b p"
proof (induction n arbitrary: b)
  case 0
  then show ?case by simp
next
  case (Suc n)
  from Suc.prems have "b \<in> origin m a \<or> b \<in> reached m a n \<or> b \<in> nbrs m (reached m a n)"
    by simp
  then consider "b = a" | "b \<in> reached m a n"
    | c where "c \<in> reached m a n" "b \<in> set (neighbours m c)"
    using nbrs_E [of b m "reached m a n"] by (auto simp: origin_def)
  then show ?case
  proof cases
    case 1
    then have "route m a b [a]" by (simp add: route_def)
    then show ?thesis ..
  next
    case 2
    then show ?thesis by (rule Suc.IH)
  next
    case 3
    from Suc.IH [OF 3(1)] obtain p where "route m a c p" ..
    then have "route m a b (p @ [b])" using 3(2) by (rule route_snoc)
    then show ?thesis ..
  qed
qed

lemma reached_fixed:
  assumes "reached m a (Suc n) = reached m a n"
  shows "reached m a (n + k) = reached m a n"
proof (induction k)
  case 0
  then show ?case by simp
next
  case (Suc k)
  have "reached m a (n + Suc k) = reached m a (Suc (n + k))" by simp
  also have "\<dots> = origin m a \<union> reached m a n \<union> nbrs m (reached m a n)"
    unfolding reached.simps Suc ..
  also have "\<dots> = reached m a (Suc n)" by simp
  finally show ?case using assms by simp
qed

lemma expand_heads_eq:
  "hd ` set (expand m seen ps) = (\<Union>p\<in>set ps. set (neighbours m (hd p))) - set seen"
proof (induction ps arbitrary: seen)
  case Nil
  then show ?case by simp
next
  case (Cons p ps)
  let ?fresh = "filter (\<lambda>c. c \<notin> set seen) (neighbours m (hd p))"
  have "hd ` set (expand m seen (p # ps))
      = set ?fresh \<union> hd ` set (expand m (?fresh @ seen) ps)"
    by (simp add: Let_def image_Un image_image del: set_filter)
  also have "\<dots> = set ?fresh \<union> ((\<Union>q\<in>set ps. set (neighbours m (hd q))) - set (?fresh @ seen))"
    by (simp only: Cons.IH)
  also have "\<dots> = (\<Union>q\<in>set (p # ps). set (neighbours m (hd q))) - set seen"
    by auto
  finally show ?case .
qed

lemma expand_paths:
  "q \<in> set (expand m seen ps) \<Longrightarrow>
     \<exists>p\<in>set ps. \<exists>c. q = c # p \<and> c \<in> set (neighbours m (hd p))"
proof (induction ps arbitrary: seen)
  case Nil
  then show ?case by simp
next
  case (Cons p ps)
  let ?fresh = "filter (\<lambda>c. c \<notin> set seen) (neighbours m (hd p))"
  from Cons.prems have "q \<in> (\<lambda>c. c # p) ` set ?fresh \<or> q \<in> set (expand m (?fresh @ seen) ps)"
    by (simp add: Let_def del: set_filter)
  then show ?case
  proof
    assume "q \<in> (\<lambda>c. c # p) ` set ?fresh"
    then show ?thesis by auto
  next
    assume "q \<in> set (expand m (?fresh @ seen) ps)"
    from Cons.IH [OF this] show ?thesis by auto
  qed
qed


lemma reached_Suc_layer:
  assumes "0 < n" "F = reached m a n - reached m a (n - 1)"
  shows "reached m a (Suc n) = reached m a n \<union> nbrs m F"
proof -
  obtain k where n: "n = Suc k" using assms(1) by (cases n) auto
  have sub: "reached m a k \<subseteq> reached m a n" unfolding n by (rule reached_mono)
  have start: "origin m a \<subseteq> reached m a n"
    unfolding n by auto
  have old: "nbrs m (reached m a k) \<subseteq> reached m a n"
    unfolding n by auto
  have F: "F = reached m a n - reached m a k" using assms(2) n by simp
  have "reached m a n = reached m a k \<union> F" using sub unfolding F by blast
  then have "nbrs m (reached m a n) = nbrs m (reached m a k) \<union> nbrs m F"
    by (simp only: nbrs_Un)
  moreover have "reached m a (Suc n) = origin m a \<union> reached m a n \<union> nbrs m (reached m a n)"
    by simp
  ultimately show ?thesis using start old by blast
qed

lemma layer_step:
  assumes "layer_inv m a n seen frontier"
  shows "layer_inv m a (Suc n) (map hd (expand m seen frontier) @ seen) (expand m seen frontier)"
proof -
  let ?F = "hd ` set frontier"
  let ?next = "expand m seen frontier"
  have n: "0 < n" and seen: "set seen = reached m a n"
    and F: "?F = reached m a n - reached m a (n - 1)"
    and paths: "\<And>p. p \<in> set frontier \<Longrightarrow> route m a (hd p) (rev p) \<and> length p = n"
    using assms by (simp_all add: layer_inv_def)
  have "(\<Union>p\<in>set frontier. set (neighbours m (hd p))) = nbrs m ?F"
    by (simp add: nbrs_def)
  then have heads: "hd ` set ?next = nbrs m ?F - reached m a n"
    by (simp only: expand_heads_eq seen)
  have next_level: "reached m a (Suc n) = reached m a n \<union> nbrs m ?F"
    using n F by (rule reached_Suc_layer)
  have "set (map hd ?next @ seen) = hd ` set ?next \<union> set seen"
    by simp
  then have c1: "set (map hd ?next @ seen) = reached m a (Suc n)"
    unfolding heads seen next_level by blast
  have c2: "hd ` set ?next = reached m a (Suc n) - reached m a (Suc n - 1)"
    unfolding heads next_level by auto
  have c3: "route m a (hd q) (rev q) \<and> length q = Suc n" if "q \<in> set ?next" for q
  proof -
    from expand_paths [OF that] obtain p c where
      p: "p \<in> set frontier" and q: "q = c # p" and c: "c \<in> set (neighbours m (hd p))"
      by blast
    from paths [OF p] have "route m a (hd p) (rev p)" "length p = n" by simp_all
    with c have "route m a c (rev p @ [c])" "length (c # p) = Suc n"
      by (simp_all add: route_snoc)
    then show ?thesis unfolding q by simp
  qed
  from c1 c2 c3 show ?thesis
    unfolding layer_inv_def by blast
qed

lemma bfs_correct:
  "layer_inv m a n seen frontier \<Longrightarrow> goal \<notin> reached m a (n - 1) \<Longrightarrow>
     (if \<exists>k. goal \<in> reached m a k
      then route m a goal (bfs m goal seen frontier) \<and>
           (\<forall>k. goal \<in> reached m a k \<longrightarrow> length (bfs m goal seen frontier) \<le> k)
      else bfs m goal seen frontier = [])"
proof (induction m goal seen frontier arbitrary: n rule: bfs.induct)
  case (1 m goal seen frontier)
  have n: "0 < n" and F: "hd ` set frontier = reached m a n - reached m a (n - 1)"
    and paths: "\<And>p. p \<in> set frontier \<Longrightarrow> route m a (hd p) (rev p) \<and> length p = n"
    using "1.prems"(1) by (simp_all add: layer_inv_def)
  show ?case
  proof (cases "find (\<lambda>p. hd p = goal) frontier")
    case (Some p)
    then have p: "p \<in> set frontier" "hd p = goal"
      by (auto simp: find_Some_iff)
    have res: "bfs m goal seen frontier = rev p"
      using Some by (simp add: bfs.simps [of m goal seen frontier])
    from paths [OF p(1)] p(2) have r: "route m a goal (rev p)" "length p = n" by simp_all
    from route_reached [OF r(1)] have ex: "\<exists>k. goal \<in> reached m a k" by blast
    have "n \<le> k" if "goal \<in> reached m a k" for k
    proof (rule ccontr)
      assume "\<not> n \<le> k"
      then have "k \<le> n - 1" by simp
      from reached_mono_le [OF this] that "1.prems"(2) show False by blast
    qed
    with ex r res show ?thesis by simp
  next
    case None
    then have "goal \<notin> hd ` set frontier"
      by (auto simp: find_None_iff)
    with F "1.prems"(2) have out: "goal \<notin> reached m a n" by blast
    let ?next = "expand m seen frontier"
    note step = layer_step [OF "1.prems"(1)]
    show ?thesis
    proof (cases "?next = []")
      case True
      then have res: "bfs m goal seen frontier = []"
        using None by (simp add: bfs.simps [of m goal seen frontier] Let_def)
      from True step have "reached m a (Suc n) - reached m a n = {}"
        by (simp add: layer_inv_def)
      with reached_mono [of m a n] have "reached m a (Suc n) = reached m a n" by blast
      note fixed = reached_fixed [OF this]
      have "goal \<notin> reached m a k" for k
      proof (cases "k \<le> n")
        case True
        from reached_mono_le [OF this] out show ?thesis by blast
      next
        case False
        then have "k = n + (k - n)" by simp
        with fixed [of "k - n"] out show ?thesis by metis
      qed
      with res show ?thesis by simp
    next
      case False
      then have res: "bfs m goal seen frontier = bfs m goal (map hd ?next @ seen) ?next"
        using None by (simp add: bfs.simps [of m goal seen frontier] Let_def)
      from out have "goal \<notin> reached m a (Suc n - 1)" by simp
      from "1.IH" [OF None refl False step this] show ?thesis
        unfolding res .
    qed
  qed
qed

lemma bfs_shortest:
  "(route m a b r \<longrightarrow>
      route m a b (bfs m b [a] [[a]]) \<and> length (bfs m b [a] [[a]]) \<le> length r) \<and>
   ((\<forall>r. \<not> route m a b r) \<longrightarrow> bfs m b [a] [[a]] = [])"
proof -
  have "reached m a 1 = {a}"
    by (simp add: origin_def nbrs_def)
  then have inv: "layer_inv m a 1 [a] [[a]]"
    by (simp add: layer_inv_def route_def)
  have g0: "b \<notin> reached m a (1 - 1)" by simp
  note C = bfs_correct [OF inv g0]
  have ex: "(\<exists>k. b \<in> reached m a k) \<longleftrightarrow> (\<exists>r. route m a b r)"
    using route_reached reached_route by blast
  show ?thesis
  proof (cases "\<exists>r. route m a b r")
    case True
    with ex C have c: "route m a b (bfs m b [a] [[a]])"
      "\<And>k. b \<in> reached m a k \<Longrightarrow> length (bfs m b [a] [[a]]) \<le> k"
      by simp_all
    from c(1) c(2) [OF route_reached] True show ?thesis
      by blast
  next
    case False
    with ex C have "bfs m b [a] [[a]] = []" by simp
    with False show ?thesis by blast
  qed
qed

lemma grid_search_returns:
  assumes "cell_at m (fst a) (snd a) \<noteq> None" "0 \<le> snd b" "snd b < int (length m)"
  shows "grid_search m (fst a) (snd a) (fst b) (snd b) = Some (bfs m b [a] [[a]])"
  using assms by (simp add: grid_search_def)

section \<open>The cache stays coherent with the grid\<close>

lemma map_of_map_delete:
  "map_of (map_delete k m) k' = (if k' = k then None else map_of m k')"
  by (induction m) (auto simp: map_delete_def)

lemma cache_get_cache_set:
  assumes "cache_get k' (cache_set k p c) = Some v"
  shows "(k' = k \<and> v = p) \<or> cache_get k' c = Some v"
proof -
  let ?st1 = "if map_has k (store c) then map_delete k (store c) else store c"
  have st1: "?st1 = map_delete k (store c)"
    by (simp add: map_delete_absent)
  have st2: "map_set k p ?st1 = map_delete k (store c) @ [(k, p)]"
    unfolding st1 by (simp add: map_set_absent)
  let ?st2 = "map_delete k (store c) @ [(k, p)]"
  have look2: "map_of ?st2 k' = (if k' = k then Some p else map_of (store c) k')"
    by (simp add: map_add_def map_of_map_delete split: option.splits)
  have "store (cache_set k p c) = ?st2 \<or> (\<exists>ko. store (cache_set k p c) = map_delete ko ?st2)"
    using st2 by (auto simp: cache_set_def Let_def simp del: map_set_def split: list.splits)
  then have "map_of (store (cache_set k p c)) k' = None \<or>
      map_of (store (cache_set k p c)) k' = map_of ?st2 k'"
  proof (elim disjE exE)
    assume "store (cache_set k p c) = ?st2"
    then show ?thesis by simp
  next
    fix ko assume "store (cache_set k p c) = map_delete ko ?st2"
    then have "map_of (store (cache_set k p c)) k'
        = (if k' = ko then None else map_of ?st2 k')"
      by (simp only: map_of_map_delete)
    then show ?thesis by (cases "k' = ko") simp_all
  qed
  with assms look2 show ?thesis
    by (auto simp: cache_get_def map_get_def split: option.splits if_splits)
qed

lemma coherent_empty: "store (pathCache s) = [] \<Longrightarrow> cache_coherent s"
  by (simp add: cache_coherent_def cache_get_def map_get_def)

lemma coherent_keep:
  "pathCache t = pathCache s \<Longrightarrow> walkMatrix t = walkMatrix s \<Longrightarrow> cache_coherent s \<Longrightarrow>
     cache_coherent t"
  by (simp add: cache_coherent_def)

lemma coherent_keeps_or_clears:
  "keeps_or_clears s t \<Longrightarrow> cache_coherent s \<Longrightarrow> cache_coherent t"
  unfolding keeps_or_clears_def using coherent_empty coherent_keep by blast

lemma setRoadValue_cache:
  "keeps_or_clears s (snd (setRoadValue cx cy v s))"
  by (simp add: keeps_or_clears_def setRoadValue_def Let_def invalidatePaths_def
      scheduleCarPathRefresh_def rebuildSpawnOrder_def cache_clear_def)

lemma setRoadValue_cache_empty:
  "store (pathCache s) = [] \<Longrightarrow> store (pathCache (snd (setRoadValue cx cy v s))) = []"
  by (simp add: setRoadValue_def Let_def invalidatePaths_def
      scheduleCarPathRefresh_def rebuildSpawnOrder_def cache_clear_def)

lemma seedSimpleRoads_cache_empty:
  assumes "store (pathCache s) = []"
  shows "store (pathCache (seedSimpleRoads s)) = []"
proof -
  let ?P = "\<lambda>t. store (pathCache t) = []"
  have step: "?P (fold (\<lambda>a t. snd (setRoadValue (fx a) (fy a) 1 t)) xs t)"
    if "?P t" for fx fy :: "'a \<Rightarrow> int" and xs t
    using that by (rule fold_invariant) (simp add: setRoadValue_cache_empty)
  have step2: "?P (fold (\<lambda>cy t. snd (setRoadValue qx cy 1 (snd (setRoadValue px cy 1 t)))) xs t)"
    if "?P t" for px qx xs t
    using that by (rule fold_invariant) (simp add: setRoadValue_cache_empty)
  let ?midY = "\<lfloor>real_of_int gridHeight / 2\<rfloor>"
  let ?midX = "\<lfloor>real_of_int gridWidth / 2\<rfloor>"
  let ?s1 = "fold (\<lambda>cx t. snd (setRoadValue cx ?midY 1 t)) [3..gridWidth - 3 - 1] s"
  let ?s2 = "fold (\<lambda>cy t. snd (setRoadValue ?midX cy 1 t)) [3..gridHeight - 3 - 1] ?s1"
  let ?s3 = "fold (\<lambda>cy t. snd (setRoadValue \<lfloor>real_of_int gridWidth * 0.75\<rfloor> cy 1
                                   (snd (setRoadValue \<lfloor>real_of_int gridWidth * 0.25\<rfloor> cy 1 t))))
                 [?midY - 6..?midY + 6] ?s2"
  let ?s4 = "fold (\<lambda>point t. snd (setRoadValue (fst point) (snd point) 1 t))
               [(?midX, 4), (?midX, gridHeight - 5), (4, ?midY), (gridWidth - 5, ?midY)] ?s3"
  have "?P ?s1" using assms by (rule step [of s "\<lambda>cx. cx" "\<lambda>cx. ?midY"])
  then have "?P ?s2" by (rule step [of ?s1 "\<lambda>cy. ?midX" "\<lambda>cy. cy"])
  then have "?P ?s3" by (rule step2)
  then have s4: "?P ?s4" by (rule step [of ?s3 fst snd])
  have "pathCache (seedSimpleRoads s) = pathCache ?s4"
    by (simp add: seedSimpleRoads_def Let_def rebuildSpawnOrder_def)
  with s4 show ?thesis by simp
qed

lemma resetMap_cache_empty: "store (pathCache (resetMap s)) = []"
proof -
  let ?s1 = "clearCells s"
  let ?s2 = "rebuildSpawnOrder (?s1\<lparr>spawnPoints := []\<rparr>)"
  let ?s3 = "?s2\<lparr>destinationPoints := [], pathCache := cache_clear (pathCache ?s2),
                   roadCount := 0\<rparr>"
  have "store (pathCache (clearCars ?s3)) = []"
    by (simp add: clearCars_def refreshHud_def cache_clear_def)
  then have "store (pathCache (seedSimpleRoads (clearCars ?s3))) = []"
    by (rule seedSimpleRoads_cache_empty)
  moreover have "pathCache (resetMap s) = pathCache (seedSimpleRoads (clearCars ?s3))"
    by (simp add: resetMap_def Let_def showFlash_def forceRedraw_def refreshHud_def)
  ultimately show ?thesis by simp
qed

lemma create_cache_empty: "store (pathCache (create newScene)) = []"
proof -
  have "store (pathCache (refreshHud True (initializeGrid newScene))) = []"
    by (simp add: refreshHud_def initializeGrid_def newScene_def new_PathCache_def)
  then have "store (pathCache (seedSimpleRoads (refreshHud True (initializeGrid newScene)))) = []"
    by (rule seedSimpleRoads_cache_empty)
  then show ?thesis
    by (simp add: create_def forceRedraw_def refreshHud_def)
qed

lemma findPath_coherent:
  assumes "cache_coherent s"
  shows "cache_coherent (snd (findPath grid_search a b s))"
proof (cases "cache_get (pathKey a b) (pathCache s)")
  case (Some cached)
  then show ?thesis using assms by (simp add: findPath_def)
next
  case miss: None
  show ?thesis
  proof (cases "grid_search (walkMatrix s) (fst a) (snd a) (fst b) (snd b)")
    case None
    with miss assms show ?thesis by (simp add: findPath_def)
  next
    case (Some cells)
    show ?thesis
    proof (cases "cells = []")
      case True
      with miss Some assms show ?thesis by (simp add: findPath_def)
    next
      case False
      with miss Some have t: "snd (findPath grid_search a b s)
          = s\<lparr>pathCache := cache_set (pathKey a b) cells (pathCache s)\<rparr>"
        by (simp add: findPath_def Let_def)
      show ?thesis
        unfolding t cache_coherent_def
      proof (intro allI impI)
        fix a' b' cs
        assume "cache_get (pathKey a' b')
            (pathCache (s\<lparr>pathCache := cache_set (pathKey a b) cells (pathCache s)\<rparr>)) = Some cs"
        then have "cache_get (pathKey a' b') (cache_set (pathKey a b) cells (pathCache s)) = Some cs"
          by simp
        from cache_get_cache_set [OF this]
        show "grid_search (walkMatrix (s\<lparr>pathCache := cache_set (pathKey a b) cells (pathCache s)\<rparr>))
            (fst a') (snd a') (fst b') (snd b') = Some cs"
        proof
          assume "pathKey a' b' = pathKey a b \<and> cs = cells"
          with pathKey_inj [of a' b' a b] Some show ?thesis by simp
        next
          assume "cache_get (pathKey a' b') (pathCache s) = Some cs"
          with assms show ?thesis by (simp add: cache_coherent_def)
        qed
      qed
    qed
  qed
qed

lemma step_coherent:
  assumes "cache_coherent s"
  shows "cache_coherent (step a s)"
proof (cases a)
  case (SetRoadValue cx cy v)
  with assms setRoadValue_cache [of s cx cy v] show ?thesis
    by (simp add: coherent_keeps_or_clears)
next
  case (ToggleSpawn cell)
  have "keeps_or_clears s (toggleSpawn cell s)"
    by (simp add: keeps_or_clears_def toggleSpawn_def Let_def showFlash_def refreshHud_def
        invalidatePaths_def scheduleCarPathRefresh_def rebuildSpawnOrder_def cache_clear_def)
  with assms ToggleSpawn show ?thesis by (simp add: coherent_keeps_or_clears)
next
  case (RemoveSpawn cell)
  have "keeps_or_clears s (removeSpawn cell s)"
    by (simp add: keeps_or_clears_def removeSpawn_def Let_def showFlash_def refreshHud_def
        invalidatePaths_def scheduleCarPathRefresh_def rebuildSpawnOrder_def cache_clear_def)
  with assms RemoveSpawn show ?thesis by (simp add: coherent_keeps_or_clears)
next
  case (ToggleDestination cell)
  have "keeps_or_clears s (toggleDestination cell s)"
    by (simp add: keeps_or_clears_def toggleDestination_def Let_def showFlash_def refreshHud_def
        invalidatePaths_def scheduleCarPathRefresh_def cache_clear_def)
  with assms ToggleDestination show ?thesis by (simp add: coherent_keeps_or_clears)
next
  case (RemoveDestination cell)
  have "keeps_or_clears s (removeDestination cell s)"
    by (simp add: keeps_or_clears_def removeDestination_def Let_def showFlash_def refreshHud_def
        invalidatePaths_def scheduleCarPathRefresh_def cache_clear_def)
  with assms RemoveDestination show ?thesis by (simp add: coherent_keeps_or_clears)
next
  case (CreateCar cells col speed)
  have "keeps_or_clears s (createCar cells col speed s)"
    by (simp add: keeps_or_clears_def createCar_def Let_def refreshHud_def)
  with assms CreateCar show ?thesis by (simp add: coherent_keeps_or_clears)
next
  case (RemoveCarAt index hint)
  have "keeps_or_clears s (case removeCarAt index hint s of None \<Rightarrow> s | Some t \<Rightarrow> t)"
    by (simp add: keeps_or_clears_def removeCarAt_def Let_def refreshHud_def)
  with assms RemoveCarAt show ?thesis by (simp add: coherent_keeps_or_clears)
next
  case ClearCars
  have "keeps_or_clears s (clearCars s)"
    by (simp add: keeps_or_clears_def clearCars_def Let_def refreshHud_def)
  with assms ClearCars show ?thesis by (simp add: coherent_keeps_or_clears)
next
  case ResetMap
  then show ?thesis by (simp add: coherent_empty resetMap_cache_empty)
next
  case (FindPath start goal)
  with assms show ?thesis by (simp add: findPath_coherent)
qed

lemma run_coherent: "cache_coherent s \<Longrightarrow> cache_coherent (run ops s)"
  unfolding run_def by (induction ops arbitrary: s) (simp_all add: step_coherent)

lemma walkable_is_road:
  assumes "mirror_ok s"
  shows "walkableAt (walkMatrix s) c \<longleftrightarrow> isRoad s (fst c) (snd c)"
proof (cases "isInside (fst c) (snd c)")
  case True
  have dw: "grid_dims (walkMatrix s)" using assms by (simp add: mirror_ok_def)
  with True have "cell_at (walkMatrix s) (fst c) (snd c)
      = Some (walkMatrix s ! nat (snd c) ! nat (fst c))"
    by (simp add: cell_at_def grid_dims_def isInside_def)
  moreover have "walkMatrix s ! nat (snd c) ! nat (fst c) = 0
      \<longleftrightarrow> grid s ! nat (snd c) ! nat (fst c) = 1"
    using assms True by (simp add: mirror_ok_def)
  ultimately show ?thesis
    using True isRoad_mirror [OF assms, of "fst c" "snd c"] by (simp add: walkableAt_def)
next
  case False
  have dw: "grid_dims (walkMatrix s)" using assms by (simp add: mirror_ok_def)
  with False have "cell_at (walkMatrix s) (fst c) (snd c) = None"
    by (auto simp: cell_at_def grid_dims_def isInside_def)
  with False show ?thesis by (simp add: walkableAt_def isRoad_def)
qed

lemma entry_route_route:
  "mirror_ok s \<Longrightarrow> entry_route s a b p \<longleftrightarrow> route (walkMatrix s) a b p"
  by (simp add: entry_route_def route_def walkable_is_road)

lemma road_route_entry:
  "road_route s a b p \<longleftrightarrow> isRoad s (fst a) (snd a) \<and> entry_route s a b p"
  by (cases p) (auto simp: road_route_def entry_route_def)

lemma inside_cell_at:
  assumes "mirror_ok s" "isInside cx cy"
  shows "cell_at (walkMatrix s) cx cy \<noteq> None" "0 \<le> cy" "cy < int (length (walkMatrix s))"
proof -
  have dw: "grid_dims (walkMatrix s)" using assms(1) by (simp add: mirror_ok_def)
  with assms(2) show "cell_at (walkMatrix s) cx cy \<noteq> None"
    by (simp add: cell_at_def grid_dims_def isInside_def)
  from dw assms(2) show "0 \<le> cy" "cy < int (length (walkMatrix s))"
    by (simp_all add: grid_dims_def isInside_def)
qed

lemma findPath_result:
  assumes "cache_coherent s"
  shows "fst (findPath grid_search a b s)
           = grid_search (walkMatrix s) (fst a) (snd a) (fst b) (snd b)"
proof (cases "cache_get (pathKey a b) (pathCache s)")
  case None
  then show ?thesis by (simp add: findPath_def Let_def split: option.splits)
next
  case (Some cached)
  with assms have "grid_search (walkMatrix s) (fst a) (snd a) (fst b) (snd b) = Some cached"
    by (simp add: cache_coherent_def)
  with Some show ?thesis by (simp add: findPath_def)
qed

text \<open>
  From a cell that differs from the end and has no road cell next to it, no route
  leaves.
\<close>

lemma no_entry_route:
  assumes "a \<noteq> b"
    and "\<not> isRoad s (fst a) (snd a - 1)" "\<not> isRoad s (fst a + 1) (snd a)"
    and "\<not> isRoad s (fst a) (snd a + 1)" "\<not> isRoad s (fst a - 1) (snd a)"
  shows "\<not> entry_route s a b r"
proof
  assume r: "entry_route s a b r"
  then obtain rest where r1: "r = a # rest"
    by (cases r) (auto simp: entry_route_def)
  with r assms(1) obtain d rest' where r2: "rest = d # rest'"
    by (cases rest) (auto simp: entry_route_def)
  from r have "adjacent a d" "isRoad s (fst d) (snd d)"
    unfolding r1 r2 by (simp_all add: entry_route_def)
  moreover from \<open>adjacent a d\<close> have
    "d = (fst a, snd a - 1) \<or> d = (fst a + 1, snd a) \<or> d = (fst a, snd a + 1) \<or>
     d = (fst a - 1, snd a)"
    unfolding adjacent_def prod_eq_iff by (cases a; cases d) (simp; linarith)
  ultimately show False using assms(2-5) by auto
qed

section \<open>findPath\<close>

text \<open>
  C1, as the search has it. For cells \<open>a\<close> and \<open>b\<close> of the grid, in every state of a
  session, \<open>findPath\<close> returns a sequence and does not raise. If some route from \<open>a\<close> to
  \<open>b\<close> over road cells exists, the result is such a route (first cell \<open>a\<close>, last cell
  \<open>b\<close>, consecutive cells one unit step apart in one of the four directions, every cell
  a road) and no longer than any other; if \<open>a\<close> is a road cell and no such route exists,
  the result is the empty sequence. The search does not look at the start cell: from
  every \<open>a\<close>, road or not, the result is a shortest sequence of unit steps from \<open>a\<close> to
  \<open>b\<close> whose cells after the first are road cells, and empty when there is none. The
  result may come from the cache: every edit of the grid clears it, so a cached path is
  the search's answer on the present grid.
\<close>

theorem findPath_shortest_route:
  assumes "isInside (fst a) (snd a)" and "isInside (fst b) (snd b)"
  shows "\<exists>p. fst (findPath grid_search a b (run ops (create newScene))) = Some p \<and>
           (\<forall>r. road_route (run ops (create newScene)) a b r \<longrightarrow>
                road_route (run ops (create newScene)) a b p \<and> length p \<le> length r) \<and>
           (isRoad (run ops (create newScene)) (fst a) (snd a) \<and>
            (\<forall>r. \<not> road_route (run ops (create newScene)) a b r) \<longrightarrow> p = []) \<and>
           (\<forall>r. entry_route (run ops (create newScene)) a b r \<longrightarrow>
                entry_route (run ops (create newScene)) a b p \<and> length p \<le> length r) \<and>
           ((\<forall>r. \<not> entry_route (run ops (create newScene)) a b r) \<longrightarrow> p = [])"
proof -
  let ?s = "run ops (create newScene)"
  let ?p = "bfs (walkMatrix ?s) b [a] [[a]]"
  have ok: "mirror_ok ?s"
    by (simp add: mirror_ok_run mirror_ok_create)
  have "cache_coherent (create newScene)"
    using create_cache_empty by (rule coherent_empty)
  then have "cache_coherent ?s" by (rule run_coherent)
  then have "fst (findPath grid_search a b ?s)
      = grid_search (walkMatrix ?s) (fst a) (snd a) (fst b) (snd b)"
    by (rule findPath_result)
  also have "\<dots> = Some ?p"
    using inside_cell_at [OF ok assms(1)] inside_cell_at(2,3) [OF ok assms(2)]
    by (intro grid_search_returns)
  finally have res: "fst (findPath grid_search a b ?s) = Some ?p" .
  note B = bfs_shortest [of "walkMatrix ?s" a b, folded entry_route_route [OF ok]]
  have e1: "entry_route ?s a b ?p \<and> length ?p \<le> length r" if "entry_route ?s a b r" for r
    using B [of r] that by blast
  have e2: "?p = []" if "\<forall>r. \<not> entry_route ?s a b r"
    using B that by blast
  have r1: "road_route ?s a b ?p \<and> length ?p \<le> length r" if "road_route ?s a b r" for r
    using e1 [of r] that by (simp add: road_route_entry)
  have r2: "?p = []" if "isRoad ?s (fst a) (snd a)" "\<forall>r. \<not> road_route ?s a b r"
    using e2 that by (simp add: road_route_entry)
  from res e1 e2 r1 r2 show ?thesis by blast
qed


theorem findPath_shortest_route_witness:
  "isInside 24 4 \<and> isInside 24 6 \<and> isInside 0 0 \<and> isInside 2 16 \<and> isInside 4 16 \<and>
   road_route (run [FindPath (24, 4) (24, 6)] (create newScene)) (24, 4) (24, 6)
     [(24, 4), (24, 5), (24, 6)] \<and>
   fst (findPath grid_search (24, 4) (24, 6) (run [FindPath (24, 4) (24, 6)] (create newScene)))
     = Some [(24, 4), (24, 5), (24, 6)] \<and>
   isRoad (run [SetRoadValue 0 0 1] (create newScene)) 0 0 \<and>
   fst (findPath grid_search (0, 0) (24, 6) (run [SetRoadValue 0 0 1] (create newScene)))
     = Some [] \<and>
   \<not> isRoad (run [] (create newScene)) 2 16 \<and>
   entry_route (run [] (create newScene)) (2, 16) (4, 16) [(2, 16), (3, 16), (4, 16)] \<and>
   fst (findPath grid_search (2, 16) (4, 16) (run [] (create newScene)))
     = Some [(2, 16), (3, 16), (4, 16)] \<and>
   \<not> isRoad (run [] (create newScene)) 0 0 \<and>
   fst (findPath grid_search (0, 0) (24, 6) (run [] (create newScene))) = Some [] \<and>
   fst (findPath grid_search (24, 4) (24, 6)
         (run [FindPath (24, 4) (24, 6), SetRoadValue 24 5 0] (create newScene))) = Some []"
proof -
  let ?s = "run [FindPath (24, 4) (24, 6)] (create newScene)"
  let ?t = "run [FindPath (24, 4) (24, 6), SetRoadValue 24 5 0] (create newScene)"
  let ?u = "run [SetRoadValue 0 0 1] (create newScene)"
  let ?v = "run [] (create newScene)"
  have s: "?s = snd (findPath grid_search (24, 4) (24, 6) startScene)"
    by (simp add: run_def startScene_def)
  have t: "?t = snd (setRoadValue 24 5 0 (snd (findPath grid_search (24, 4) (24, 6) startScene)))"
    by (simp add: run_def startScene_def)
  have u: "?u = snd (setRoadValue 0 0 1 startScene)"
    by (simp add: run_def startScene_def)
  have v: "?v = startScene"
    by (simp add: run_def startScene_def)
  have inside: "isInside 24 4" "isInside 24 6" "isInside 0 0" "isInside 2 16" "isInside 4 16"
    by (simp_all add: isInside_def gridWidth_def gridHeight_def)
  have roads: "isRoad startScene 24 4" "isRoad startScene 24 5" "isRoad startScene 24 6"
    "isRoad startScene 3 16" "isRoad startScene 4 16"
    "\<not> isRoad startScene 2 16" "\<not> isRoad startScene 0 0"
    "\<not> isRoad startScene 0 (- 1)" "\<not> isRoad startScene 1 0"
    "\<not> isRoad startScene 0 1" "\<not> isRoad startScene (- 1) 0"
    by code_simp+
  then have roads_s: "isRoad ?s 24 4" "isRoad ?s 24 5" "isRoad ?s 24 6"
    unfolding s by (simp_all add: isRoad_def)
  have roads_u: "isRoad (snd (setRoadValue 0 0 1 startScene)) 0 0"
    "\<not> isRoad (snd (setRoadValue 0 0 1 startScene)) 0 (- 1)"
    "\<not> isRoad (snd (setRoadValue 0 0 1 startScene)) 1 0"
    "\<not> isRoad (snd (setRoadValue 0 0 1 startScene)) 0 1"
    "\<not> isRoad (snd (setRoadValue 0 0 1 startScene)) (- 1) 0"
    by code_simp+
  have r: "road_route ?s (24, 4) (24, 6) [(24, 4), (24, 5), (24, 6)]"
    using roads_s by (simp add: road_route_def adjacent_def)
  have e: "entry_route ?v (2, 16) (4, 16) [(2, 16), (3, 16), (4, 16)]"
    unfolding v using roads by (simp add: entry_route_def adjacent_def)
  have hit: "fst (findPath grid_search (24, 4) (24, 6)
      (snd (findPath grid_search (24, 4) (24, 6) startScene))) = Some [(24, 4), (24, 5), (24, 6)]"
    by code_simp
  have entry: "fst (findPath grid_search (2, 16) (4, 16) startScene)
      = Some [(2, 16), (3, 16), (4, 16)]"
    by code_simp
  have cut: "fst (findPath grid_search (24, 4) (24, 6)
      (snd (setRoadValue 24 5 0 (snd (findPath grid_search (24, 4) (24, 6) startScene)))))
      = Some []"
    by code_simp
  have none_u: "\<forall>r. \<not> road_route ?u (0, 0) (24, 6) r"
    unfolding u road_route_entry
    using no_entry_route [of "(0, 0)" "(24, 6)" "snd (setRoadValue 0 0 1 startScene)"] roads_u
    by simp
  have none_v: "\<forall>r. \<not> entry_route ?v (0, 0) (24, 6) r"
    unfolding v
    using no_entry_route [of "(0, 0)" "(24, 6)" startScene] roads
    by simp
  from findPath_shortest_route [where a = "(24, 4)" and b = "(24, 6)"
         and ops = "[FindPath (24, 4) (24, 6)]"] inside r
  have short: "\<exists>p. fst (findPath grid_search (24, 4) (24, 6) ?s) = Some p \<and> length p \<le> 3"
    by fastforce
  from findPath_shortest_route [where a = "(2, 16)" and b = "(4, 16)" and ops = "[]"] inside e
  have short_e: "\<exists>p. fst (findPath grid_search (2, 16) (4, 16) ?v) = Some p \<and> length p \<le> 3"
    by fastforce
  from findPath_shortest_route [where a = "(0, 0)" and b = "(24, 6)"
         and ops = "[SetRoadValue 0 0 1]"] inside none_u roads_u(1)
  have empty_u: "fst (findPath grid_search (0, 0) (24, 6) ?u) = Some []"
    unfolding u by fastforce
  from findPath_shortest_route [where a = "(0, 0)" and b = "(24, 6)" and ops = "[]"]
    inside none_v
  have empty_v: "fst (findPath grid_search (0, 0) (24, 6) ?v) = Some []"
    by fastforce
  have c1: "fst (findPath grid_search (24, 4) (24, 6) ?s) = Some [(24, 4), (24, 5), (24, 6)]"
    unfolding s by (rule hit)
  have c2: "isRoad ?u 0 0" unfolding u by (rule roads_u(1))
  have c3: "\<not> isRoad ?v 2 16" "\<not> isRoad ?v 0 0" unfolding v by (rule roads)+
  have c4: "fst (findPath grid_search (2, 16) (4, 16) ?v) = Some [(2, 16), (3, 16), (4, 16)]"
    unfolding v by (rule entry)
  have c5: "fst (findPath grid_search (24, 4) (24, 6) ?t) = Some []"
    unfolding t by (rule cut)
  from inside r short c1 c2 empty_u c3 e short_e c4 empty_v c5 show ?thesis
    by blast
qed

text \<open>
  A route over road cells only starts on a road cell. On the seeded map (2, 16) is no
  road cell and (3, 16), (4, 16) are: no route over road cells only leaves (2, 16), and
  yet \<open>findPath\<close> from (2, 16) to (4, 16) returns three cells. And from a start above the
  first row of the grid the call ends with the library's \<open>TypeError\<close>.
\<close>

lemma road_route_start: "road_route s a b r \<Longrightarrow> isRoad s (fst a) (snd a)"
  by (simp add: road_route_entry)

theorem findPath_leaves_non_road_start:
  "isInside 2 16 \<and> isInside 4 16 \<and> \<not> isRoad startScene 2 16 \<and>
   fst (findPath grid_search (2, 16) (4, 16) startScene) = Some [(2, 16), (3, 16), (4, 16)] \<and>
   \<not> isInside 24 (- 1) \<and>
   fst (findPath grid_search (24, - 1) (24, 6) startScene) = None"
proof -
  have "isInside 2 16" "isInside 4 16" "\<not> isInside 24 (- 1)"
    by (simp_all add: isInside_def gridWidth_def gridHeight_def)
  moreover have "\<not> isRoad startScene 2 16"
    by code_simp
  moreover have "fst (findPath grid_search (2, 16) (4, 16) startScene)
      = Some [(2, 16), (3, 16), (4, 16)]"
    by code_simp
  moreover have "fst (findPath grid_search (24, - 1) (24, 6) startScene) = None"
    by code_simp
  ultimately show ?thesis by simp
qed

end
